theory Spec2Isabelle
  imports Complex_Main "HOL-Library.Multiset"
begin

section \<open>JavaScript strings\<close>

text \<open>
  A JavaScript string is a sequence of UTF-16 code units. A code unit is modelled by its
  numeric value, so that the non-ASCII characters the program names (dashes, emoji
  surrogate pairs, Unicode spaces) are ordinary list elements and \<open>length\<close> is the
  string's \<open>.length\<close>.
\<close>

type_synonym jsstring = "nat list"

text \<open>ASCII literals of the source are written through \<open>js\<close>.\<close>

definition js :: "string \<Rightarrow> jsstring" where
  "js s = map of_char s"

text \<open>
  The characters matched by \<open>\s\<close> in a regular expression and stripped by \<open>trim\<close>,
  \<open>trimStart\<close> and \<open>trimEnd\<close> (ECMAScript WhiteSpace and LineTerminator): TAB, LF, VT,
  FF, CR, SP, NBSP, U+1680, U+2000 to U+200A, LS, PS, U+202F, U+205F, U+3000 and U+FEFF.
\<close>

definition isSpace :: "nat \<Rightarrow> bool" where
  "isSpace c = (c = 9 \<or> c = 10 \<or> c = 11 \<or> c = 12 \<or> c = 13 \<or> c = 32 \<or> c = 160
     \<or> c = 5760 \<or> (8192 \<le> c \<and> c \<le> 8202) \<or> c = 8232 \<or> c = 8233 \<or> c = 8239
     \<or> c = 8287 \<or> c = 12288 \<or> c = 65279)"

text \<open>The characters that \<open>.\<close> does not match and at which \<open>^\<close> and \<open>$\<close> anchor under the
  \<open>m\<close> flag: LF, CR, LS and PS.\<close>

definition isLineTerminator :: "nat \<Rightarrow> bool" where
  "isLineTerminator c = (c = 10 \<or> c = 13 \<or> c = 8232 \<or> c = 8233)"

text \<open>\<open>\d\<close>: the ASCII digits.\<close>

definition isDigit :: "nat \<Rightarrow> bool" where
  "isDigit c = (48 \<le> c \<and> c \<le> 57)"

definition trimStart :: "jsstring \<Rightarrow> jsstring" where
  "trimStart s = dropWhile isSpace s"

definition trimEnd :: "jsstring \<Rightarrow> jsstring" where
  "trimEnd s = rev (dropWhile isSpace (rev s))"

definition trim :: "jsstring \<Rightarrow> jsstring" where
  "trim s = trimEnd (trimStart s)"

text \<open>\<open>s.startsWith(p)\<close> and \<open>s.includes(p)\<close>.\<close>

fun startsWith :: "jsstring \<Rightarrow> jsstring \<Rightarrow> bool" where
  "startsWith s [] = True"
| "startsWith [] (p # ps) = False"
| "startsWith (c # cs) (p # ps) = (c = p \<and> startsWith cs ps)"

fun includesStr :: "jsstring \<Rightarrow> jsstring \<Rightarrow> bool" where
  "includesStr [] p = (p = [])"
| "includesStr (c # cs) p = (startsWith (c # cs) p \<or> includesStr cs p)"

text \<open>\<open>parts.join(sep)\<close>.\<close>

fun joinWith :: "jsstring \<Rightarrow> jsstring list \<Rightarrow> jsstring" where
  "joinWith sep [] = []"
| "joinWith sep [p] = p"
| "joinWith sep (p # q # ps) = p @ sep @ joinWith sep (q # ps)"

section \<open>RetryScheduler: \<open>callChatWithBackoff\<close>\<close>

text \<open>
  An error thrown by \<open>postResponsesStream\<close>: its optional \<open>status\<close>, its \<open>name\<close> and its
  \<open>message\<close> (an absent message is the empty string, as \<open>error.message ?? ''\<close> reads it).
\<close>

record api_error =
  status :: "int option"
  name :: jsstring
  message :: jsstring

text \<open>ASCII upper-casing: the canonicalisation that the \<open>i\<close> flag applies when the
  pattern is ASCII.\<close>

definition asciiUpper :: "nat \<Rightarrow> nat" where
  "asciiUpper c = (if 97 \<le> c \<and> c \<le> 122 then c - 32 else c)"

definition isAbort :: "api_error \<Rightarrow> bool" where
  "isAbort e = (name e = js ''AbortError''
     \<or> includesStr (map asciiUpper (message e)) (js ''TIMEOUT''))"

definition shouldRetry :: "api_error \<Rightarrow> bool" where
  "shouldRetry e =
     (case status e of
        Some s \<Rightarrow> if s \<noteq> 0 then s \<in> {429, 502, 503, 504} else isAbort e
      | None \<Rightarrow> isAbort e)"

text \<open>The error thrown after the loop: \<open>new Error('Exceeded max retries for API call')\<close>.\<close>

definition exceededMaxRetries :: api_error where
  "exceededMaxRetries =
     \<lparr>status = None, name = js ''Error'', message = js ''Exceeded max retries for API call''\<rparr>"

text \<open>
  The retry loop. \<open>post i\<close> is the outcome of the call of \<open>postResponsesStream\<close> made by
  attempt \<open>i\<close>: the assembled text, or the error it throws. The sleep between two attempts
  does not influence the result and is left out. A thrown error is \<open>Inl\<close>.
\<close>

function callLoop :: "(nat \<Rightarrow> api_error + jsstring) \<Rightarrow> int \<Rightarrow> nat \<Rightarrow> api_error + jsstring" where
  "callLoop post maxRetries attempt =
     (if int attempt < maxRetries then
        (case post attempt of
           Inr text \<Rightarrow> Inr text
         | Inl error \<Rightarrow>
             if \<not> shouldRetry error \<or> int attempt = maxRetries - 1 then Inl error
             else callLoop post maxRetries (attempt + 1))
      else Inl exceededMaxRetries)"
  by pat_completeness auto
termination
  by (relation "measure (\<lambda>(post, maxRetries, attempt). nat (maxRetries - int attempt))") auto

declare callLoop.simps [simp del]

definition callChatWithBackoff :: "(nat \<Rightarrow> api_error + jsstring) \<Rightarrow> int \<Rightarrow> api_error + jsstring" where
  "callChatWithBackoff post maxRetries = callLoop post maxRetries 0"

text \<open>A concrete network: every call is aborted by the timeout.\<close>

definition timeoutError :: api_error where
  "timeoutError = \<lparr>status = None, name = js ''Error'', message = js ''timeout''\<rparr>"

definition alwaysTimeout :: "nat \<Rightarrow> api_error + jsstring" where
  "alwaysTimeout i = Inl timeoutError"

subsection \<open>Properties of the retry loop\<close>

lemma shouldRetry_timeoutError: "shouldRetry timeoutError"
  by (simp add: shouldRetry_def isAbort_def timeoutError_def js_def asciiUpper_def)

lemma callLoop_all_retryable:
  assumes "int attempt < maxRetries"
    and "\<And>i. attempt \<le> i \<Longrightarrow> int i < maxRetries \<Longrightarrow> \<exists>e. post i = Inl e \<and> shouldRetry e"
  shows "callLoop post maxRetries attempt = post (nat (maxRetries - 1))"
  using assms
proof (induction post maxRetries attempt rule: callLoop.induct)
  case (1 post maxRetries attempt)
  from "1.prems" obtain e where e: "post attempt = Inl e" "shouldRetry e"
    by blast
  show ?case
  proof (cases "int attempt = maxRetries - 1")
    case True
    then have "nat (maxRetries - 1) = attempt" by simp
    with e "1.prems"(1) True show ?thesis
      by (simp add: callLoop.simps [of post maxRetries attempt])
  next
    case False
    with "1.prems"(1) have less: "int (attempt + 1) < maxRetries" by simp
    have "callLoop post maxRetries (attempt + 1) = post (nat (maxRetries - 1))"
      using "1.IH" [OF "1.prems"(1) e(1)] e(2) False less "1.prems"(2) by simp
    with e "1.prems"(1) False show ?thesis
      by (simp add: callLoop.simps [of post maxRetries attempt])
  qed
qed

text \<open>
  C5 (as stated, refuted). With six attempts that all time out, a retryable failure, the
  error raised by \<open>callChatWithBackoff\<close> is the very error of the last attempt and not the
  separate \<open>Exceeded max retries\<close> error.
\<close>

theorem C5_final_error_not_distinct:
  "shouldRetry timeoutError \<and> alwaysTimeout 5 = Inl timeoutError
   \<and> callChatWithBackoff alwaysTimeout 6 = Inl timeoutError
   \<and> timeoutError \<noteq> exceededMaxRetries"
  by (simp add: shouldRetry_timeoutError callChatWithBackoff_def callLoop.simps alwaysTimeout_def)
    (simp add: timeoutError_def exceededMaxRetries_def js_def)

text \<open>
  C5 (amended). When at least one attempt is made and every attempt fails with a retryable
  error, \<open>callChatWithBackoff\<close> re-raises the error of the last attempt; the separate
  \<open>Exceeded max retries\<close> error is raised exactly when no attempt is made at all
  (\<open>maxRetries \<le> 0\<close>).
\<close>

theorem C5_exhausted_rethrows_last:
  "(0 < maxRetries \<longrightarrow>
      (\<forall>i. int i < maxRetries \<longrightarrow> (\<exists>e. post i = Inl e \<and> shouldRetry e)) \<longrightarrow>
      callChatWithBackoff post maxRetries = post (nat (maxRetries - 1)))
   \<and> (maxRetries \<le> 0 \<longrightarrow> callChatWithBackoff post maxRetries = Inl exceededMaxRetries)"
proof (intro conjI impI)
  assume "0 < maxRetries"
    and "\<forall>i. int i < maxRetries \<longrightarrow> (\<exists>e. post i = Inl e \<and> shouldRetry e)"
  then show "callChatWithBackoff post maxRetries = post (nat (maxRetries - 1))"
    unfolding callChatWithBackoff_def by (intro callLoop_all_retryable) auto
next
  assume "maxRetries \<le> 0"
  then show "callChatWithBackoff post maxRetries = Inl exceededMaxRetries"
    by (simp add: callChatWithBackoff_def callLoop.simps)
qed

theorem C5_exhausted_rethrows_last_witness:
  "callChatWithBackoff alwaysTimeout 6 = alwaysTimeout 5
   \<and> callChatWithBackoff alwaysTimeout 0 = Inl exceededMaxRetries"
proof -
  have "\<forall>i. int i < 6 \<longrightarrow> (\<exists>e. alwaysTimeout i = Inl e \<and> shouldRetry e)"
    by (simp add: alwaysTimeout_def shouldRetry_timeoutError)
  then show ?thesis
    using C5_exhausted_rethrows_last [of 6 alwaysTimeout]
      C5_exhausted_rethrows_last [of 0 alwaysTimeout] by simp
qed

section \<open>Searching in strings, footnote syntax\<close>

text \<open>\<open>s.indexOf(p)\<close> and \<open>s.lastIndexOf(p)\<close>; the result \<open>-1\<close> of the source is
  \<open>None\<close>.\<close>

fun indexOf :: "jsstring \<Rightarrow> jsstring \<Rightarrow> nat option" where
  "indexOf [] p = (if p = [] then Some 0 else None)"
| "indexOf (c # cs) p =
     (if startsWith (c # cs) p then Some 0 else map_option Suc (indexOf cs p))"

fun lastIndexOf :: "jsstring \<Rightarrow> jsstring \<Rightarrow> nat option" where
  "lastIndexOf [] p = (if p = [] then Some 0 else None)"
| "lastIndexOf (c # cs) p =
     (case lastIndexOf cs p of
        Some i \<Rightarrow> Some (Suc i)
      | None \<Rightarrow> if startsWith (c # cs) p then Some 0 else None)"

text \<open>
  A match of \<open>\[\^\d+\]\<close> at the start of \<open>s\<close>: the digits and the text after the closing
  bracket. The digits are taken greedily; the character after them has to be the bracket,
  which is no digit, so no shorter run of digits can match.
\<close>

definition matchMarker :: "jsstring \<Rightarrow> (jsstring \<times> jsstring) option" where
  "matchMarker s =
     (case s of
        a # b # r \<Rightarrow>
          if a = 91 \<and> b = 94 \<and> takeWhile isDigit r \<noteq> [] then
            (case dropWhile isDigit r of
               c # t \<Rightarrow> if c = 93 then Some (takeWhile isDigit r, t) else None
             | [] \<Rightarrow> None)
          else None
      | _ \<Rightarrow> None)"

text \<open>A match of \<open>\[\^\d+\]:\<close> at the start of \<open>s\<close>: the digits and the text after the
  colon.\<close>

definition matchDefHead :: "jsstring \<Rightarrow> (jsstring \<times> jsstring) option" where
  "matchDefHead s =
     (case matchMarker s of
        Some (ds, c # t) \<Rightarrow> if c = 58 then Some (ds, t) else None
      | _ \<Rightarrow> None)"

text \<open>The lines of a text under the \<open>m\<close> flag: the text is cut at every line
  terminator.\<close>

fun linesOf :: "jsstring \<Rightarrow> jsstring list" where
  "linesOf [] = [[]]"
| "linesOf (c # cs) =
     (if isLineTerminator c then [] # linesOf cs
      else (case linesOf cs of l # ls \<Rightarrow> (c # l) # ls | [] \<Rightarrow> [[c]]))"

text \<open>
  The matches of \<open>/^\[\^\d+\]:(.*)$/gm\<close> in document order, each given by its group 1:
  every line that starts with a definition head yields the rest of that line.
\<close>

definition defLineContents :: "jsstring \<Rightarrow> jsstring list" where
  "defLineContents text = List.map_filter (\<lambda>l. map_option snd (matchDefHead l)) (linesOf text)"

definition ALLOWED_EMOJIS :: "jsstring list" where
  "ALLOWED_EMOJIS =
     [[55357, 56538], [55357, 56467], [55357, 56615], [55358, 56800], [55357, 56797, 65039],
      [55356, 56815, 55356, 56821], [55356, 57101], [55358, 56809], [9203]]"

section \<open>VocabMemory\<close>

text \<open>\<open>xs.slice(start)\<close> for an integer \<open>start\<close>: a negative start counts from the end,
  and \<open>slice(-0)\<close> is \<open>slice(0)\<close>.\<close>

definition sliceFrom :: "int \<Rightarrow> 'a list \<Rightarrow> 'a list" where
  "sliceFrom start xs =
     (let len = int (length xs);
          k = (if start < 0 then max (len + start) 0 else min start len)
      in drop (nat k) xs)"

text \<open>
  The state of a \<open>VocabMemory\<close> object. The Unicode case mapping \<open>toLowerCase\<close> is not
  part of the source; every operation takes it as the parameter \<open>lc\<close>.
\<close>

record vocab_memory =
  storeLimit :: int
  terms :: "jsstring list"
  lower :: "jsstring set"

text \<open>What \<open>load\<close> finds on disk: no file, a file that cannot be read or parsed, a JSON
  value that is no array, or an array, whose entries are strings or other values.\<close>

datatype json_entry = JString jsstring | JOther

datatype vocab_file = Missing | Unparsable | NotArray | Entries "json_entry list"

definition loadEntry ::
  "(jsstring \<Rightarrow> jsstring) \<Rightarrow> json_entry \<Rightarrow> jsstring list \<times> jsstring set
     \<Rightarrow> jsstring list \<times> jsstring set" where
  "loadEntry lc entry acc =
     (case acc of (filtered, seen) \<Rightarrow>
        (case entry of
           JOther \<Rightarrow> (filtered, seen)
         | JString e \<Rightarrow>
             if trim e = [] then (filtered, seen)
             else if lc (trim e) \<in> seen then (filtered, seen)
             else (filtered @ [trim e], insert (lc (trim e)) seen)))"

definition load :: "(jsstring \<Rightarrow> jsstring) \<Rightarrow> vocab_file \<Rightarrow> vocab_memory \<Rightarrow> vocab_memory" where
  "load lc file m =
     (case file of
        Entries data \<Rightarrow>
          (let limited = sliceFrom (- storeLimit m) (fst (fold (loadEntry lc) data ([], {})))
           in m\<lparr>terms := limited, lower := set (map lc limited)\<rparr>)
      | _ \<Rightarrow> m)"

text \<open>The constructor: an empty memory, then \<open>load\<close>.\<close>

definition newVocabMemory :: "(jsstring \<Rightarrow> jsstring) \<Rightarrow> vocab_file \<Rightarrow> int \<Rightarrow> vocab_memory" where
  "newVocabMemory lc file limit = load lc file \<lparr>storeLimit = limit, terms = [], lower = {}\<rparr>"

definition recent :: "int \<Rightarrow> vocab_memory \<Rightarrow> jsstring list" where
  "recent limit m = (if limit \<le> 0 then [] else sliceFrom (- limit) (terms m))"

text \<open>One round of the loop of \<open>addTerms\<close>, on the term list, the lower-cased set and the
  \<open>updated\<close> flag.\<close>

definition addTerm ::
  "(jsstring \<Rightarrow> jsstring) \<Rightarrow> jsstring \<Rightarrow> jsstring list \<times> jsstring set \<times> bool
     \<Rightarrow> jsstring list \<times> jsstring set \<times> bool" where
  "addTerm lc term acc =
     (case acc of (ts, lw, updated) \<Rightarrow>
        if trim term = [] then (ts, lw, updated)
        else if lc (trim term) \<in> lw then (ts, lw, updated)
        else (ts @ [trim term], insert (lc (trim term)) lw, True))"

text \<open>\<open>addTerms\<close> returns the new state and the \<open>updated\<close> flag.\<close>

definition addTerms ::
  "(jsstring \<Rightarrow> jsstring) \<Rightarrow> jsstring list \<Rightarrow> vocab_memory \<Rightarrow> vocab_memory \<times> bool" where
  "addTerms lc new m =
     (case fold (addTerm lc) new (terms m, lower m, False) of (ts, lw, updated) \<Rightarrow>
        if int (length ts) > storeLimit m then
          (m\<lparr>terms := sliceFrom (- storeLimit m) ts,
             lower := set (map lc (sliceFrom (- storeLimit m) ts))\<rparr>, updated)
        else (m\<lparr>terms := ts, lower := lw\<rparr>, updated))"

text \<open>\<open>extractTerms\<close>: for every definition line, the content without its leading allowed
  emoji, cut at the first separator of the list that occurs in it.\<close>

definition stripEmoji :: "jsstring \<Rightarrow> jsstring" where
  "stripEmoji content =
     (case List.find (startsWith content) ALLOWED_EMOJIS of
        Some emoji \<Rightarrow> trimStart (drop (length emoji) content)
      | None \<Rightarrow> content)"

definition termSeparators :: "jsstring list" where
  "termSeparators =
     [[58], [65306], [32, 45, 32], [32, 8212, 32], [32, 8211, 32], [8212], [8211]]"

definition cutAtSeparator :: "jsstring \<Rightarrow> jsstring" where
  "cutAtSeparator candidate =
     (case List.map_filter (indexOf candidate) termSeparators of
        idx # _ \<Rightarrow> take idx candidate
      | [] \<Rightarrow> candidate)"

definition extractTerm :: "jsstring \<Rightarrow> jsstring option" where
  "extractTerm line =
     (if trim line = [] then None
      else if stripEmoji (trim line) = [] then None
      else if trim (cutAtSeparator (stripEmoji (trim line))) = [] then None
      else Some (trim (cutAtSeparator (stripEmoji (trim line)))))"

definition extractTerms :: "jsstring \<Rightarrow> jsstring list" where
  "extractTerms text = List.map_filter extractTerm (defLineContents text)"

definition updateFromText ::
  "(jsstring \<Rightarrow> jsstring) \<Rightarrow> jsstring \<Rightarrow> vocab_memory \<Rightarrow> vocab_memory \<times> bool" where
  "updateFromText lc text m = addTerms lc (extractTerms text) m"

text \<open>The operations a run applies to the memory after its construction.\<close>

datatype vocab_op = Load vocab_file | AddTerms "jsstring list" | UpdateFromText jsstring

fun applyOp :: "(jsstring \<Rightarrow> jsstring) \<Rightarrow> vocab_op \<Rightarrow> vocab_memory \<Rightarrow> vocab_memory" where
  "applyOp lc (Load file) m = load lc file m"
| "applyOp lc (AddTerms new) m = fst (addTerms lc new m)"
| "applyOp lc (UpdateFromText text) m = fst (updateFromText lc text m)"

definition runOps ::
  "(jsstring \<Rightarrow> jsstring) \<Rightarrow> vocab_file \<Rightarrow> int \<Rightarrow> vocab_op list \<Rightarrow> vocab_memory" where
  "runOps lc file limit ops = fold (applyOp lc) ops (newVocabMemory lc file limit)"

text \<open>ASCII lower-casing, a concrete case mapping for the examples.\<close>

definition asciiLower :: "jsstring \<Rightarrow> jsstring" where
  "asciiLower s = map (\<lambda>c. if 65 \<le> c \<and> c \<le> 90 then c + 32 else c) s"

subsection \<open>The invariant of the memory\<close>

text \<open>The lower-cased set mirrors the term list, and no two terms have the same lower-cased
  form.\<close>

definition vocabOk :: "(jsstring \<Rightarrow> jsstring) \<Rightarrow> jsstring list \<Rightarrow> jsstring set \<Rightarrow> bool" where
  "vocabOk lc ts lw = (lw = set (map lc ts) \<and> distinct (map lc ts))"

lemma addTerm_ok:
  "vocabOk lc ts lw \<Longrightarrow> addTerm lc t (ts, lw, u) = (ts', lw', u') \<Longrightarrow> vocabOk lc ts' lw'"
  by (auto simp: addTerm_def vocabOk_def split: if_splits)

lemma fold_addTerm_ok:
  "vocabOk lc ts lw \<Longrightarrow> fold (addTerm lc) new (ts, lw, u) = (ts', lw', u') \<Longrightarrow> vocabOk lc ts' lw'"
proof (induction new arbitrary: ts lw u)
  case Nil
  then show ?case by simp
next
  case (Cons t new)
  obtain ts1 lw1 u1 where step: "addTerm lc t (ts, lw, u) = (ts1, lw1, u1)"
    by (cases "addTerm lc t (ts, lw, u)") auto
  from addTerm_ok [OF Cons.prems(1) step] have "vocabOk lc ts1 lw1" .
  with Cons.IH [of ts1 lw1 u1] Cons.prems(2) step show ?case by simp
qed

lemma loadEntry_ok:
  "vocabOk lc ts lw \<Longrightarrow> loadEntry lc e (ts, lw) = (ts', lw') \<Longrightarrow> vocabOk lc ts' lw'"
  by (auto simp: loadEntry_def vocabOk_def split: if_splits json_entry.splits)

lemma fold_loadEntry_ok:
  "vocabOk lc ts lw \<Longrightarrow> fold (loadEntry lc) data (ts, lw) = (ts', lw') \<Longrightarrow> vocabOk lc ts' lw'"
proof (induction data arbitrary: ts lw)
  case Nil
  then show ?case by simp
next
  case (Cons e data)
  obtain ts1 lw1 where step: "loadEntry lc e (ts, lw) = (ts1, lw1)"
    by (cases "loadEntry lc e (ts, lw)") auto
  from loadEntry_ok [OF Cons.prems(1) step] have "vocabOk lc ts1 lw1" .
  with Cons.IH [of ts1 lw1] Cons.prems(2) step show ?case by simp
qed

lemma sliceFrom_drop: "\<exists>k. sliceFrom start xs = drop k xs"
  by (auto simp: sliceFrom_def Let_def)

lemma distinct_sliceFrom: "distinct (map f xs) \<Longrightarrow> distinct (map f (sliceFrom start xs))"
  using sliceFrom_drop [of start xs] by (auto simp: drop_map [symmetric] distinct_drop simp del: drop_map)

lemma length_sliceFrom_neg: "0 < limit \<Longrightarrow> int (length (sliceFrom (- limit) xs)) \<le> limit"
  by (auto simp: sliceFrom_def Let_def)

text \<open>The invariant of a memory object; the bound on the length is the one a positive
  capacity enjoys.\<close>

definition memoryOk :: "(jsstring \<Rightarrow> jsstring) \<Rightarrow> vocab_memory \<Rightarrow> bool" where
  "memoryOk lc m = (lower m = set (map lc (terms m)) \<and> distinct (map lc (terms m))
     \<and> (0 < storeLimit m \<longrightarrow> int (length (terms m)) \<le> storeLimit m))"

lemma load_ok: "memoryOk lc m \<Longrightarrow> memoryOk lc (load lc file m) \<and> storeLimit (load lc file m) = storeLimit m"
proof (cases "file")
  case (Entries data)
  obtain ts lw where f: "fold (loadEntry lc) data ([], {}) = (ts, lw)"
    by (cases "fold (loadEntry lc) data ([], {})") auto
  have "vocabOk lc [] {}" by (simp add: vocabOk_def)
  from fold_loadEntry_ok [OF this f] have "distinct (map lc ts)" by (simp add: vocabOk_def)
  then show ?thesis using Entries f
    by (simp add: load_def memoryOk_def Let_def distinct_sliceFrom length_sliceFrom_neg)
qed (simp_all add: load_def)

lemma addTerms_ok:
  assumes "memoryOk lc m"
  shows "memoryOk lc (fst (addTerms lc new m)) \<and> storeLimit (fst (addTerms lc new m)) = storeLimit m"
proof -
  obtain ts lw u where f: "fold (addTerm lc) new (terms m, lower m, False) = (ts, lw, u)"
    by (cases "fold (addTerm lc) new (terms m, lower m, False)") auto
  from assms have "vocabOk lc (terms m) (lower m)" by (simp add: memoryOk_def vocabOk_def)
  from fold_addTerm_ok [OF this f] have ok: "lw = set (map lc ts)" "distinct (map lc ts)"
    by (simp_all add: vocabOk_def)
  show ?thesis using f ok
    by (auto simp: addTerms_def memoryOk_def distinct_sliceFrom length_sliceFrom_neg)
qed

lemma applyOp_ok:
  "memoryOk lc m \<Longrightarrow> memoryOk lc (applyOp lc op m) \<and> storeLimit (applyOp lc op m) = storeLimit m"
  by (cases op) (simp_all add: load_ok addTerms_ok updateFromText_def)

lemma fold_applyOp_ok:
  "memoryOk lc m \<Longrightarrow> memoryOk lc (fold (applyOp lc) ops m) \<and> storeLimit (fold (applyOp lc) ops m) = storeLimit m"
  by (induction ops arbitrary: m) (simp_all add: applyOp_ok)

lemma runOps_ok: "memoryOk lc (runOps lc file limit ops) \<and> storeLimit (runOps lc file limit ops) = limit"
proof -
  have "memoryOk lc \<lparr>storeLimit = limit, terms = [], lower = {}\<rparr>" by (simp add: memoryOk_def)
  from load_ok [OF this, of "file"] fold_applyOp_ok [of lc "newVocabMemory lc file limit" ops]
  show ?thesis by (simp add: runOps_def newVocabMemory_def)
qed

text \<open>
  For every capacity, every initial file and every sequence of \<open>load\<close>, \<open>addTerms\<close> and
  \<open>updateFromText\<close>, no two stored terms are equal after lower-casing; when the capacity is
  positive the list never has more entries than the capacity.
\<close>

lemma vocab_memory_invariant:
  "distinct (map lc (terms (runOps lc disk limit ops)))
   \<and> (0 < limit \<longrightarrow> int (length (terms (runOps lc disk limit ops))) \<le> limit)"
  using runOps_ok [of lc disk limit ops] by (auto simp: memoryOk_def)

text \<open>
  C7 (the code departs from the claim). With the capacity \<open>storeLimit = 0\<close> and no file on
  disk, \<open>addTerms(['a'])\<close> leaves one term in the list: \<open>terms.slice(-0)\<close> is the whole
  list, so the truncation that \<open>addTerms\<close> attempts removes nothing and the list exceeds
  the capacity.
\<close>

theorem C7_zero_capacity_exceeded:
  "terms (runOps asciiLower Missing 0 [AddTerms [js ''a'']]) = [js ''a'']
   \<and> int (length (terms (runOps asciiLower Missing 0 [AddTerms [js ''a'']]))) > 0"
  by (simp add: runOps_def newVocabMemory_def load_def addTerms_def addTerm_def trim_def
      trimEnd_def trimStart_def js_def isSpace_def sliceFrom_def asciiLower_def)

section \<open>TokenEstimator\<close>

text \<open>
  A number that the program gets from \<open>Number.parseInt\<close>: an integer, or \<open>NaN\<close> when the
  text does not start with digits. The token budget (\<open>CHUNK_TOKENS\<close>, \<open>--chunk-tokens\<close>), the
  footnote margin and the size of the token cache are read in this way, without a check.
  A comparison with \<open>NaN\<close> is false, and \<open>NaN\<close> goes through \<open>-\<close> and \<open>Math.max\<close>.
\<close>

datatype jsnumber = NaN | Num int

text \<open>\<open>x > y\<close> for an integer \<open>x\<close>.\<close>

fun exceeds :: "int \<Rightarrow> jsnumber \<Rightarrow> bool" where
  "exceeds x NaN = False"
| "exceeds x (Num y) = (x > y)"

fun jsMinus :: "jsnumber \<Rightarrow> jsnumber \<Rightarrow> jsnumber" where
  "jsMinus (Num x) (Num y) = Num (x - y)"
| "jsMinus x y = NaN"

text \<open>\<open>Math.max(x, y)\<close> for an integer \<open>x\<close>.\<close>

fun jsMax :: "int \<Rightarrow> jsnumber \<Rightarrow> jsnumber" where
  "jsMax x NaN = NaN"
| "jsMax x (Num y) = Num (max x y)"

text \<open>
  The constants of \<open>config.js\<close> and of the environment, and the Unicode property count of
  the runtime, are not part of the source; they are the fields of a configuration:
  \<open>punctuationCount text\<close> is the number of matches of \<open>/[\p{P}\p{S}]/gu\<close> in \<open>text\<close>.
\<close>

record config =
  punctuationCount :: "jsstring \<Rightarrow> nat"
  TOKEN_COUNT_CACHE_SIZE :: jsnumber
  MIN_EFFECTIVE_CHUNK_TOKENS :: int
  FOOTNOTE_MARGIN_TOKENS :: jsnumber

text \<open>\<open>s.split(/\s+/)\<close>: the pieces between the maximal runs of white space; the empty
  string gives one empty piece.\<close>

function splitSpaces :: "jsstring \<Rightarrow> jsstring list" where
  "splitSpaces [] = [[]]"
| "splitSpaces (c # cs) =
     (if isSpace c then [] # splitSpaces (dropWhile isSpace cs)
      else (case splitSpaces cs of p # ps \<Rightarrow> (c # p) # ps | [] \<Rightarrow> [[c]]))"
  by pat_completeness auto
termination
  by (relation "measure length") (auto simp: less_Suc_eq_le length_dropWhile_le)

text \<open>\<open>Math.round\<close> rounds to the nearest integer, a half upwards. The source computes in
  double precision; the model computes the same expression in exact rationals.\<close>

definition mathRound :: "rat \<Rightarrow> int" where
  "mathRound x = \<lfloor>x + 1 / 2\<rfloor>"

definition approximateTokenCount :: "config \<Rightarrow> jsstring \<Rightarrow> int" where
  "approximateTokenCount cfg text =
     (if text = [] then 0
      else if trim text = [] then 0
      else
        (let words = length (filter (\<lambda>w. w \<noteq> []) (splitSpaces (trim text)));
             punctuation = punctuationCount cfg text;
             charEstimate = mathRound (of_nat (length text) / 4)
         in max 1 (mathRound ((of_nat words + of_nat punctuation * (1 / 5) + of_int charEstimate) / 2))))"

text \<open>
  The token cache is a JavaScript \<open>Map\<close>: keys in insertion order, each at most once.
  \<open>mapSet\<close> keeps the place of a key that is present and appends a new one.
\<close>

type_synonym token_cache = "(jsstring \<times> int) list"

definition mapDelete :: "jsstring \<Rightarrow> token_cache \<Rightarrow> token_cache" where
  "mapDelete k cache = filter (\<lambda>e. fst e \<noteq> k) cache"

definition mapSet :: "jsstring \<Rightarrow> int \<Rightarrow> token_cache \<Rightarrow> token_cache" where
  "mapSet k v cache =
     (if map_of cache k = None then cache @ [(k, v)]
      else map (\<lambda>e. if fst e = k then (k, v) else e) cache)"

definition cacheKey :: "jsstring \<Rightarrow> jsstring \<Rightarrow> jsstring" where
  "cacheKey model text = model @ js ''::'' @ text"

text \<open>\<open>countTokens\<close> returns the count and the cache it leaves behind.\<close>

definition countTokens :: "config \<Rightarrow> jsstring \<Rightarrow> jsstring \<Rightarrow> token_cache \<Rightarrow> int \<times> token_cache" where
  "countTokens cfg text model cache =
     (case map_of cache (cacheKey model text) of
        Some v \<Rightarrow> (v, mapSet (cacheKey model text) v (mapDelete (cacheKey model text) cache))
      | None \<Rightarrow>
          (let tokens = approximateTokenCount cfg text;
               cache1 = mapSet (cacheKey model text) tokens cache
           in (tokens,
               if exceeds (int (length cache1)) (TOKEN_COUNT_CACHE_SIZE cfg)
               then (case cache1 of (oldestKey, _) # _ \<Rightarrow> mapDelete oldestKey cache1 | [] \<Rightarrow> cache1)
               else cache1)))"

text \<open>A sequence of calls of \<open>countTokens\<close>, each with its text and its model, from a given
  cache.\<close>

fun countAll :: "config \<Rightarrow> (jsstring \<times> jsstring) list \<Rightarrow> token_cache \<Rightarrow> token_cache" where
  "countAll cfg [] cache = cache"
| "countAll cfg ((text, model) # calls) cache =
     countAll cfg calls (snd (countTokens cfg text model cache))"

text \<open>For the examples: the punctuation count on ASCII text, where the characters of the
  categories P and S are the printable ones that are neither letters nor digits.\<close>

definition asciiPunctuation :: "jsstring \<Rightarrow> nat" where
  "asciiPunctuation text =
     length (filter (\<lambda>c. (33 \<le> c \<and> c \<le> 47) \<or> (58 \<le> c \<and> c \<le> 64) \<or> (91 \<le> c \<and> c \<le> 96)
        \<or> (123 \<le> c \<and> c \<le> 126)) text)"

definition exampleConfig :: config where
  "exampleConfig =
     \<lparr>punctuationCount = asciiPunctuation, TOKEN_COUNT_CACHE_SIZE = Num 32,
      MIN_EFFECTIVE_CHUNK_TOKENS = 3, FOOTNOTE_MARGIN_TOKENS = Num 1\<rparr>"

subsection \<open>The cache does not change the count\<close>

text \<open>The invariant of the cache while one model is in use: every entry is keyed by that
  model and some text, and holds the estimate of that text.\<close>

definition cacheOk :: "config \<Rightarrow> jsstring \<Rightarrow> token_cache \<Rightarrow> bool" where
  "cacheOk cfg model cache =
     (\<forall>e \<in> set cache. \<exists>t. fst e = cacheKey model t \<and> snd e = approximateTokenCount cfg t)"

lemma cacheKey_inject: "cacheKey model s = cacheKey model t \<Longrightarrow> s = t"
  by (simp add: cacheKey_def)

lemma cacheOk_lookup:
  "cacheOk cfg model cache \<Longrightarrow> map_of cache (cacheKey model text) = Some v
   \<Longrightarrow> v = approximateTokenCount cfg text"
proof -
  assume ok: "cacheOk cfg model cache" and hit: "map_of cache (cacheKey model text) = Some v"
  from hit have "(cacheKey model text, v) \<in> set cache" by (rule map_of_SomeD)
  with ok obtain t where "cacheKey model text = cacheKey model t" "v = approximateTokenCount cfg t"
    by (fastforce simp: cacheOk_def)
  then show ?thesis by (simp add: cacheKey_def)
qed

lemma cacheOk_mapDelete: "cacheOk cfg model cache \<Longrightarrow> cacheOk cfg model (mapDelete k cache)"
  by (auto simp: cacheOk_def mapDelete_def)

lemma cacheOk_mapSet:
  "cacheOk cfg model cache \<Longrightarrow> cacheOk cfg model (mapSet (cacheKey model t) (approximateTokenCount cfg t) cache)"
  by (auto simp: cacheOk_def mapSet_def)

lemma countTokens_value:
  "cacheOk cfg model cache \<Longrightarrow> fst (countTokens cfg text model cache) = approximateTokenCount cfg text"
  by (auto simp: countTokens_def Let_def dest: cacheOk_lookup split: option.splits)

lemma countTokens_cacheOk:
  assumes "cacheOk cfg model cache"
  shows "cacheOk cfg model (snd (countTokens cfg text model cache))"
proof (cases "map_of cache (cacheKey model text)")
  case None
  let ?c1 = "mapSet (cacheKey model text) (approximateTokenCount cfg text) cache"
  have ok1: "cacheOk cfg model ?c1" using assms by (rule cacheOk_mapSet)
  then have "cacheOk cfg model (case ?c1 of [] \<Rightarrow> ?c1 | (oldestKey, _) # _ \<Rightarrow> mapDelete oldestKey ?c1)"
    by (auto split: list.splits intro: cacheOk_mapDelete)
  with ok1 None show ?thesis by (simp add: countTokens_def Let_def)
next
  case (Some v)
  with assms have v: "v = approximateTokenCount cfg text" by (simp add: cacheOk_lookup)
  have "cacheOk cfg model (mapSet (cacheKey model text) (approximateTokenCount cfg text)
      (mapDelete (cacheKey model text) cache))"
    using assms by (intro cacheOk_mapSet cacheOk_mapDelete)
  with Some v show ?thesis by (simp add: countTokens_def)
qed

lemma countAll_cacheOk:
  "cacheOk cfg model cache \<Longrightarrow> \<forall>c \<in> set calls. snd c = model
   \<Longrightarrow> cacheOk cfg model (countAll cfg calls cache)"
proof (induction calls arbitrary: cache)
  case Nil
  then show ?case by simp
next
  case (Cons c calls)
  obtain t m where c: "c = (t, m)" by (cases c)
  with Cons.prems have "m = model" by simp
  with Cons c show ?case by (simp add: countTokens_cacheOk)
qed

lemma approximateTokenCount_blank: "trim text = [] \<Longrightarrow> approximateTokenCount cfg text = 0"
  by (simp add: approximateTokenCount_def)

lemma approximateTokenCount_nonblank: "trim text \<noteq> [] \<Longrightarrow> 1 \<le> approximateTokenCount cfg text"
  by (auto simp: approximateTokenCount_def Let_def trim_def trimEnd_def trimStart_def)

text \<open>
  C8. \<open>countTokens\<close> is private to the module and every call of the program passes the one
  model name of the process, \<open>MODEL_NAME\<close>; the reachable states of the cache are those left
  by calls with that model. For every model, every sequence of earlier calls made with it,
  whatever hits, insertions and evictions it caused, and every text,
  \<open>countTokens(text, model)\<close> returns exactly \<open>approximateTokenCount(text)\<close>, which is 0 for
  blank text and at least 1 otherwise.
\<close>

theorem C8_cache_transparent_same_model:
  "(\<forall>c \<in> set calls. snd c = model) \<longrightarrow>
     fst (countTokens cfg text model (countAll cfg calls [])) = approximateTokenCount cfg text
     \<and> (trim text = [] \<longrightarrow> fst (countTokens cfg text model (countAll cfg calls [])) = 0)
     \<and> (trim text \<noteq> [] \<longrightarrow> 1 \<le> fst (countTokens cfg text model (countAll cfg calls [])))"
proof
  assume same: "\<forall>c \<in> set calls. snd c = model"
  have "cacheOk cfg model []" by (simp add: cacheOk_def)
  from countAll_cacheOk [OF this same] have "cacheOk cfg model (countAll cfg calls [])" .
  then have "fst (countTokens cfg text model (countAll cfg calls [])) = approximateTokenCount cfg text"
    by (rule countTokens_value)
  then show "fst (countTokens cfg text model (countAll cfg calls [])) = approximateTokenCount cfg text
     \<and> (trim text = [] \<longrightarrow> fst (countTokens cfg text model (countAll cfg calls [])) = 0)
     \<and> (trim text \<noteq> [] \<longrightarrow> 1 \<le> fst (countTokens cfg text model (countAll cfg calls [])))"
    by (simp add: approximateTokenCount_blank approximateTokenCount_nonblank)
qed

theorem C8_cache_transparent_same_model_witness:
  "fst (countTokens exampleConfig (js ''a b'') (js ''m'')
         (countAll exampleConfig [(js ''a b'', js ''m''), (js ''c'', js ''m''), ([], js ''m'')] []))
     = approximateTokenCount exampleConfig (js ''a b'')
   \<and> 1 \<le> fst (countTokens exampleConfig (js ''a b'') (js ''m'')
         (countAll exampleConfig [(js ''a b'', js ''m''), (js ''c'', js ''m''), ([], js ''m'')] []))"
proof -
  have "trim (js ''a b'') \<noteq> []"
    by (simp add: js_def trim_def trimEnd_def trimStart_def isSpace_def)
  then show ?thesis
    using C8_cache_transparent_same_model [of
        "[(js ''a b'', js ''m''), (js ''c'', js ''m''), ([], js ''m'')]" "js ''m''"
        exampleConfig "js ''a b''"]
    by simp
qed

section \<open>Chunker: \<open>splitIntoTokenChunks\<close>\<close>

text \<open>
  A match of \<open>/\n\s*\n/\<close> at the start of \<open>s\<close>, given by its length. After the first
  line feed, \<open>\s*\<close> takes the whole run of white space and gives back characters until a
  line feed follows: the match ends with the last line feed of that run.
\<close>

definition matchBlankLine :: "jsstring \<Rightarrow> nat option" where
  "matchBlankLine s =
     (case s of
        [] \<Rightarrow> None
      | c # r \<Rightarrow>
          if c = 10 \<and> rev (dropWhile (\<lambda>x. x \<noteq> 10) (rev (takeWhile isSpace r))) \<noteq> []
          then Some (Suc (length (rev (dropWhile (\<lambda>x. x \<noteq> 10) (rev (takeWhile isSpace r))))))
          else None)"

text \<open>
  \<open>s.split(/\n\s*\n/)\<close>: the text is scanned from the left; a match closes the current
  piece and the scan goes on after it, any other character joins the current piece. The
  empty string gives one empty piece.
\<close>

function splitBlankLines :: "jsstring \<Rightarrow> jsstring list" where
  "splitBlankLines [] = [[]]"
| "splitBlankLines (c # cs) =
     (case matchBlankLine (c # cs) of
        Some n \<Rightarrow> [] # splitBlankLines (drop n (c # cs))
      | None \<Rightarrow> (case splitBlankLines cs of p # ps \<Rightarrow> (c # p) # ps | [] \<Rightarrow> [[c]]))"
  by pat_completeness auto
termination
  by (relation "measure length") (auto simp: matchBlankLine_def split: if_splits)

text \<open>The separators that the same scan matches, in order: what \<open>split\<close> drops.\<close>

function blankLineSeparators :: "jsstring \<Rightarrow> jsstring list" where
  "blankLineSeparators [] = []"
| "blankLineSeparators (c # cs) =
     (case matchBlankLine (c # cs) of
        Some n \<Rightarrow> take n (c # cs) # blankLineSeparators (drop n (c # cs))
      | None \<Rightarrow> blankLineSeparators cs)"
  by pat_completeness auto
termination
  by (relation "measure length") (auto simp: matchBlankLine_def split: if_splits)

text \<open>Pieces put together again with a separator of its own after each piece but the
  last.\<close>

fun weave :: "jsstring list \<Rightarrow> jsstring list \<Rightarrow> jsstring" where
  "weave [] seps = []"
| "weave (p # ps) [] = p"
| "weave (p # ps) (s # seps) = p @ s @ weave ps seps"

text \<open>The separator \<open>'\n\n'\<close> of \<open>current.join\<close>.\<close>

definition blankLine :: jsstring where
  "blankLine = [10, 10]"

text \<open>\<open>Math.max(MIN_EFFECTIVE_CHUNK_TOKENS, maxTokens - FOOTNOTE_MARGIN_TOKENS)\<close>.\<close>

definition effectiveMax :: "config \<Rightarrow> jsnumber \<Rightarrow> jsnumber" where
  "effectiveMax cfg maxTokens =
     jsMax (MIN_EFFECTIVE_CHUNK_TOKENS cfg) (jsMinus maxTokens (FOOTNOTE_MARGIN_TOKENS cfg))"

text \<open>The loop over the paragraphs, on \<open>chunks\<close>, \<open>current\<close>, \<open>currentTokens\<close> and the
  token cache, followed by the push of the last chunk.\<close>

fun chunkLoop ::
  "config \<Rightarrow> jsstring \<Rightarrow> jsnumber \<Rightarrow> jsstring list \<Rightarrow> jsstring list \<Rightarrow> jsstring list \<Rightarrow> int
     \<Rightarrow> token_cache \<Rightarrow> jsstring list \<times> token_cache" where
  "chunkLoop cfg model effMax [] chunks current currentTokens cache =
     (if current \<noteq> [] then chunks @ [joinWith blankLine current] else chunks, cache)"
| "chunkLoop cfg model effMax (paragraph # rest) chunks current currentTokens cache =
     (case countTokens cfg paragraph model cache of
        (tokens, cache') \<Rightarrow>
          if current \<noteq> [] \<and> exceeds (currentTokens + tokens) effMax
          then chunkLoop cfg model effMax rest (chunks @ [joinWith blankLine current])
                 [paragraph] tokens cache'
          else chunkLoop cfg model effMax rest chunks (current @ [paragraph])
                 (currentTokens + tokens) cache')"

text \<open>\<open>splitIntoTokenChunks\<close> returns the chunks and the token cache it leaves behind.\<close>

definition splitIntoTokenChunks ::
  "config \<Rightarrow> jsstring \<Rightarrow> jsnumber \<Rightarrow> jsstring \<Rightarrow> token_cache \<Rightarrow> jsstring list \<times> token_cache" where
  "splitIntoTokenChunks cfg text maxTokens model cache =
     chunkLoop cfg model (effectiveMax cfg maxTokens) (splitBlankLines (trim text)) [] [] 0 cache"

text \<open>
  The same loop with its bookkeeping kept: every chunk as the list of its paragraphs, each
  with the value that \<open>countTokens\<close> returned for it. \<open>chunkLoop\<close> joins the paragraphs
  of each of these groups.
\<close>

fun groupLoop ::
  "config \<Rightarrow> jsstring \<Rightarrow> jsnumber \<Rightarrow> jsstring list \<Rightarrow> (jsstring \<times> int) list list
     \<Rightarrow> (jsstring \<times> int) list \<Rightarrow> int \<Rightarrow> token_cache \<Rightarrow> (jsstring \<times> int) list list" where
  "groupLoop cfg model effMax [] groups current currentTokens cache =
     (if current \<noteq> [] then groups @ [current] else groups)"
| "groupLoop cfg model effMax (paragraph # rest) groups current currentTokens cache =
     (case countTokens cfg paragraph model cache of
        (tokens, cache') \<Rightarrow>
          if current \<noteq> [] \<and> exceeds (currentTokens + tokens) effMax
          then groupLoop cfg model effMax rest (groups @ [current]) [(paragraph, tokens)] tokens cache'
          else groupLoop cfg model effMax rest groups (current @ [(paragraph, tokens)])
                 (currentTokens + tokens) cache')"

definition chunkGroups ::
  "config \<Rightarrow> jsstring \<Rightarrow> jsnumber \<Rightarrow> jsstring \<Rightarrow> token_cache \<Rightarrow> (jsstring \<times> int) list list" where
  "chunkGroups cfg text maxTokens model cache =
     groupLoop cfg model (effectiveMax cfg maxTokens) (splitBlankLines (trim text)) [] [] 0 cache"

subsection \<open>Joining and splitting\<close>

lemma joinWith_append:
  "xs \<noteq> [] \<Longrightarrow> ys \<noteq> [] \<Longrightarrow> joinWith sep (xs @ ys) = joinWith sep xs @ sep @ joinWith sep ys"
  by (induction sep xs rule: joinWith.induct) (auto simp: neq_Nil_conv)

lemma joinWith_concat:
  "\<forall>g \<in> set gs. g \<noteq> [] \<Longrightarrow> joinWith sep (map (joinWith sep) gs) = joinWith sep (concat gs)"
proof (induction gs)
  case Nil
  then show ?case by simp
next
  case (Cons g gs)
  show ?case
  proof (cases gs)
    case Nil
    then show ?thesis by simp
  next
    case (Cons h hs)
    with Cons.prems have "g \<noteq> []" "concat gs \<noteq> []" by auto
    then have "joinWith sep (g @ concat gs) = joinWith sep g @ sep @ joinWith sep (concat gs)"
      by (rule joinWith_append)
    with Cons.IH Cons.prems Cons show ?thesis by simp
  qed
qed

lemma joinWith_weave: "joinWith sep ps = weave ps (replicate (length ps - 1) sep)"
  by (induction sep ps rule: joinWith.induct) auto

lemma splitBlankLines_nonempty: "splitBlankLines s \<noteq> []"
  by (induction s rule: splitBlankLines.induct) (auto split: option.splits list.splits)

lemma length_blankLineSeparators:
  "Suc (length (blankLineSeparators s)) = length (splitBlankLines s)"
proof (induction s rule: splitBlankLines.induct)
  case 1
  then show ?case by simp
next
  case (2 c cs)
  show ?case
  proof (cases "matchBlankLine (c # cs)")
    case None
    with 2 show ?thesis
      by (cases "splitBlankLines cs") (auto simp: splitBlankLines_nonempty)
  next
    case (Some n)
    with 2 show ?thesis by simp
  qed
qed

lemma weave_splitBlankLines: "weave (splitBlankLines s) (blankLineSeparators s) = s"
proof (induction s rule: splitBlankLines.induct)
  case 1
  then show ?case by simp
next
  case (2 c cs)
  show ?case
  proof (cases "matchBlankLine (c # cs)")
    case None
    with 2 show ?thesis
      by (cases "splitBlankLines cs"; cases "blankLineSeparators cs") (auto simp: splitBlankLines_nonempty)
  next
    case (Some n)
    with 2 show ?thesis by (simp del: drop.simps take.simps add: append_take_drop_id del: take_Suc_Cons drop_Suc_Cons)
  qed
qed

text \<open>A blank-line run: white space only, at least two characters, from a line feed to a
  line feed. Every separator that \<open>split\<close> drops is one.\<close>

definition isBlankLineRun :: "jsstring \<Rightarrow> bool" where
  "isBlankLineRun s = (2 \<le> length s \<and> hd s = 10 \<and> last s = 10 \<and> (\<forall>c \<in> set s. isSpace c))"

lemma rev_dropWhile_prefix: "\<exists>zs. xs = rev (dropWhile P (rev xs)) @ zs"
  by (metis rev_append rev_rev_ident takeWhile_dropWhile_id)

lemma matchBlankLine_run:
  assumes "matchBlankLine s = Some n"
  shows "isBlankLineRun (take n s)"
proof -
  from assms obtain r where s: "s = 10 # r"
    by (auto simp: matchBlankLine_def split: list.splits if_splits)
  define w where "w = takeWhile isSpace r"
  define run where "run = rev (dropWhile (\<lambda>x. x \<noteq> 10) (rev w))"
  from assms s have run: "run \<noteq> []" and n: "n = Suc (length run)"
    by (auto simp: matchBlankLine_def run_def w_def split: if_splits)
  obtain zs where w: "w = run @ zs"
    unfolding run_def using rev_dropWhile_prefix by blast
  have "r = w @ dropWhile isSpace r" by (simp add: w_def)
  with w have "r = run @ (zs @ dropWhile isSpace r)" by simp
  then have tk: "take n s = 10 # run"
    unfolding s n by (metis append_eq_conv_conj take_Suc_Cons)
  have sp: "\<forall>c \<in> set run. isSpace c"
  proof
    fix c assume "c \<in> set run"
    with w have "c \<in> set (takeWhile isSpace r)" by (simp add: w_def)
    then show "isSpace c" by (rule set_takeWhileD [THEN conjunct2])
  qed
  have "dropWhile (\<lambda>x. x \<noteq> 10) (rev w) \<noteq> []" using run by (simp add: run_def)
  then have "hd (dropWhile (\<lambda>x. x \<noteq> 10) (rev w)) = 10"
    using hd_dropWhile [of "\<lambda>x. x \<noteq> 10" "rev w"] by blast
  then have lst: "last run = 10" using run by (simp add: run_def last_rev)
  have "isSpace 10" by (simp add: isSpace_def)
  with run sp lst show ?thesis
    unfolding tk isBlankLineRun_def by (cases run) auto
qed

lemma blankLineSeparators_runs: "\<forall>sep \<in> set (blankLineSeparators s). isBlankLineRun sep"
proof (induction s rule: blankLineSeparators.induct)
  case 1
  then show ?case by simp
next
  case (2 c cs)
  then show ?case
    by (cases "matchBlankLine (c # cs)") (auto simp del: take.simps drop.simps take_Suc_Cons drop_Suc_Cons dest: matchBlankLine_run)
qed

text \<open>The text of a chunk, from its group.\<close>

abbreviation joinGroup :: "(jsstring \<times> int) list \<Rightarrow> jsstring" where
  "joinGroup g \<equiv> joinWith blankLine (map fst g)"

lemma chunkLoop_groupLoop:
  "fst (chunkLoop cfg model effMax ps (map joinGroup groups) (map fst current) ct cache)
     = map joinGroup (groupLoop cfg model effMax ps groups current ct cache)"
proof (induction ps arbitrary: groups current ct cache)
  case Nil
  then show ?case by simp
next
  case (Cons p ps)
  obtain tokens cache' where ct: "countTokens cfg p model cache = (tokens, cache')"
    by (cases "countTokens cfg p model cache")
  show ?case
  proof (cases "current \<noteq> [] \<and> exceeds (ct + tokens) effMax")
    case True
    with ct Cons.IH [of "groups @ [current]" "[(p, tokens)]" tokens cache'] show ?thesis by simp
  next
    case False
    with ct Cons.IH [of groups "current @ [(p, tokens)]" "ct + tokens" cache'] show ?thesis by auto
  qed
qed


lemma groupLoop_partition:
  assumes "\<forall>g \<in> set groups. g \<noteq> []"
  shows "map fst (concat (groupLoop cfg model effMax ps groups current ct cache))
           = map fst (concat groups) @ map fst current @ ps
         \<and> (\<forall>g \<in> set (groupLoop cfg model effMax ps groups current ct cache). g \<noteq> [])"
  using assms
proof (induction ps arbitrary: groups current ct cache)
  case Nil
  then show ?case by auto
next
  case (Cons p ps)
  obtain tokens cache' where ct: "countTokens cfg p model cache = (tokens, cache')"
    by (cases "countTokens cfg p model cache")
  show ?case
  proof (cases "current \<noteq> [] \<and> exceeds (ct + tokens) effMax")
    case True
    with Cons.prems have "\<forall>g \<in> set (groups @ [current]). g \<noteq> []" by simp
    from Cons.IH [OF this, of "[(p, tokens)]" tokens cache'] ct True show ?thesis by simp
  next
    case False
    from Cons.IH [OF Cons.prems, of "current @ [(p, tokens)]" "ct + tokens" cache'] ct False
    show ?thesis by auto
  qed
qed



lemma chunks_are_groups:
  "fst (splitIntoTokenChunks cfg text maxTokens model cache)
     = map (\<lambda>g. joinWith blankLine (map fst g)) (chunkGroups cfg text maxTokens model cache)"
  using chunkLoop_groupLoop [of cfg model "effectiveMax cfg maxTokens" "splitBlankLines (trim text)" "[]" "[]" 0 cache]
  by (simp add: splitIntoTokenChunks_def chunkGroups_def)

lemma groups_partition:
  "map fst (concat (chunkGroups cfg text maxTokens model cache)) = splitBlankLines (trim text)
   \<and> (\<forall>g \<in> set (chunkGroups cfg text maxTokens model cache). g \<noteq> [])"
  using groupLoop_partition [of "[]" cfg model "effectiveMax cfg maxTokens" "splitBlankLines (trim text)" "[]" 0 cache]
  by (simp add: chunkGroups_def)

lemma chunks_rejoined:
  "joinWith blankLine (fst (splitIntoTokenChunks cfg text maxTokens model cache))
     = joinWith blankLine (splitBlankLines (trim text))"
proof -
  let ?gs = "chunkGroups cfg text maxTokens model cache"
  have ne: "\<forall>g \<in> set (map (map fst) ?gs). g \<noteq> []" using groups_partition [of cfg "text" maxTokens model cache] by auto
  have "joinWith blankLine (fst (splitIntoTokenChunks cfg text maxTokens model cache))
      = joinWith blankLine (map (joinWith blankLine) (map (map fst) ?gs))"
    by (simp add: chunks_are_groups comp_def)
  also have "\<dots> = joinWith blankLine (concat (map (map fst) ?gs))"
    using ne by (rule joinWith_concat)
  also have "concat (map (map fst) ?gs) = map fst (concat ?gs)"
    by (simp add: map_concat)
  finally show ?thesis using groups_partition [of cfg "text" maxTokens model cache] by simp
qed

lemma weave_all_blank:
  "\<forall>sep \<in> set seps. sep = b \<Longrightarrow> weave ps seps = weave ps (replicate (length seps) b)"
  by (induction ps seps rule: weave.induct) auto

subsection \<open>Evaluating the estimate\<close>

text \<open>The rounded blend of \<open>approximateTokenCount\<close>, in integer arithmetic.\<close>

lemma mathRound_quarter: "mathRound (of_nat n / 4) = (int n + 2) div 4"
proof -
  have "(of_nat n :: rat) / 4 + 1 / 2 = of_int (int n + 2) / of_int 4" by simp
  then show ?thesis unfolding mathRound_def by (simp only: floor_divide_of_int_eq)
qed

lemma mathRound_blend:
  "mathRound ((of_nat w + of_nat p * (1 / 5) + of_int c) / 2) = (5 * int w + int p + 5 * c + 5) div 10"
proof -
  have "((of_nat w :: rat) + of_nat p * (1 / 5) + of_int c) / 2 + 1 / 2
      = of_int (5 * int w + int p + 5 * c + 5) / of_int 10" by simp
  then show ?thesis unfolding mathRound_def by (simp only: floor_divide_of_int_eq)
qed

lemma approximateTokenCount_integers:
  "trim text \<noteq> [] \<Longrightarrow> approximateTokenCount cfg text =
     max 1 ((5 * int (length (filter (\<lambda>w. w \<noteq> []) (splitSpaces (trim text))))
              + int (punctuationCount cfg text) + 5 * ((int (length text) + 2) div 4) + 5) div 10)"
proof -
  assume "trim text \<noteq> []"
  then have "text \<noteq> []" by (auto simp: trim_def trimEnd_def trimStart_def)
  with \<open>trim text \<noteq> []\<close> show ?thesis
    unfolding approximateTokenCount_def Let_def mathRound_quarter mathRound_blend by simp
qed

text \<open>The equations that evaluate the chunker on a concrete text.\<close>

lemmas chunker_eval = js_def trim_def trimEnd_def trimStart_def isSpace_def matchBlankLine_def blankLine_def
  effectiveMax_def exampleConfig_def splitIntoTokenChunks_def countTokens_def cacheKey_def mapSet_def mapDelete_def
  approximateTokenCount_blank approximateTokenCount_integers asciiPunctuation_def Let_def chunkGroups_def

subsection \<open>The chunks and the manuscript\<close>

text \<open>
  C1 (as stated, refuted). The manuscript \<open>a\n\n\nb\<close> has two paragraphs separated by
  three line feeds. With a budget that holds both, the only chunk is \<open>a\n\nb\<close>: rejoining
  the chunks with a blank line does not reproduce the manuscript, which needs no trimming.
\<close>

theorem C1_separator_not_reproduced:
  "joinWith blankLine
     (fst (splitIntoTokenChunks exampleConfig (js ''a\<newline>\<newline>\<newline>b'') (Num 100) (js ''m'') []))
     = js ''a\<newline>\<newline>b''
   \<and> trim (js ''a\<newline>\<newline>\<newline>b'') = js ''a\<newline>\<newline>\<newline>b''
   \<and> js ''a\<newline>\<newline>b'' \<noteq> js ''a\<newline>\<newline>\<newline>b''"
proof -
  have t: "trim (js ''a\<newline>\<newline>\<newline>b'') = js ''a\<newline>\<newline>\<newline>b''"
    by (simp add: chunker_eval)
  have p: "splitBlankLines (js ''a\<newline>\<newline>\<newline>b'') = [js ''a'', js ''b'']"
    by (simp add: chunker_eval)
  have "fst (splitIntoTokenChunks exampleConfig (js ''a\<newline>\<newline>\<newline>b'') (Num 100) (js ''m'') [])
      = [js ''a\<newline>\<newline>b'']"
    by (simp add: splitIntoTokenChunks_def t p) (simp add: chunker_eval)
  with t show ?thesis by (simp add: js_def)
qed

text \<open>
  C1 (amended). For every text and every token budget, the chunks are the paragraphs of
  the trimmed text (\<open>text.trim().split(/\n\s*\n/)\<close>), grouped in order with no paragraph
  lost, repeated or moved, and joined by blank lines. The trimmed text is these paragraphs
  woven with the separators that \<open>split\<close> matched, each a run of white space from a line
  feed to a line feed; rejoining the chunks with \<open>\n\n\<close> gives the same paragraphs woven
  with \<open>\n\n\<close> in place of every separator. So the rejoined chunks reproduce the trimmed
  text exactly when each of its paragraph separators is exactly \<open>\n\n\<close>.
\<close>

theorem C1_chunks_rejoin_paragraphs:
  "trim text = weave (splitBlankLines (trim text)) (blankLineSeparators (trim text))
   \<and> (\<forall>sep \<in> set (blankLineSeparators (trim text)). isBlankLineRun sep)
   \<and> joinWith blankLine (fst (splitIntoTokenChunks cfg text maxTokens model cache))
       = weave (splitBlankLines (trim text))
           (replicate (length (blankLineSeparators (trim text))) blankLine)
   \<and> map fst (concat (chunkGroups cfg text maxTokens model cache)) = splitBlankLines (trim text)
   \<and> fst (splitIntoTokenChunks cfg text maxTokens model cache)
       = map (\<lambda>g. joinWith blankLine (map fst g)) (chunkGroups cfg text maxTokens model cache)
   \<and> ((\<forall>sep \<in> set (blankLineSeparators (trim text)). sep = blankLine) \<longrightarrow>
        joinWith blankLine (fst (splitIntoTokenChunks cfg text maxTokens model cache)) = trim text)"
proof -
  let ?t = "trim text"
  have len: "length (splitBlankLines ?t) - 1 = length (blankLineSeparators ?t)"
    using length_blankLineSeparators [of ?t] by simp
  have j: "joinWith blankLine (fst (splitIntoTokenChunks cfg text maxTokens model cache))
       = weave (splitBlankLines ?t) (replicate (length (blankLineSeparators ?t)) blankLine)"
    unfolding chunks_rejoined using joinWith_weave [of blankLine "splitBlankLines ?t"] len by simp
  have e: "(\<forall>sep \<in> set (blankLineSeparators ?t). sep = blankLine) \<longrightarrow>
        joinWith blankLine (fst (splitIntoTokenChunks cfg text maxTokens model cache)) = ?t"
  proof
    assume "\<forall>sep \<in> set (blankLineSeparators ?t). sep = blankLine"
    then have "weave (splitBlankLines ?t) (blankLineSeparators ?t)
        = weave (splitBlankLines ?t) (replicate (length (blankLineSeparators ?t)) blankLine)"
      by (rule weave_all_blank)
    with j show "joinWith blankLine (fst (splitIntoTokenChunks cfg text maxTokens model cache)) = ?t"
      by (simp add: weave_splitBlankLines)
  qed
  show ?thesis
    using j e weave_splitBlankLines [of ?t] blankLineSeparators_runs [of ?t]
      groups_partition [of cfg "text" maxTokens model cache]
      chunks_are_groups [of cfg "text" maxTokens model cache]
    by simp
qed

theorem C1_chunks_rejoin_paragraphs_witness:
  "joinWith blankLine
     (fst (splitIntoTokenChunks exampleConfig (js ''a\<newline>\<newline>b'') (Num 100) (js ''m'') []))
     = js ''a\<newline>\<newline>b''
   \<and> trim (js ''a\<newline>\<newline>b'') = js ''a\<newline>\<newline>b''"
proof -
  have t: "trim (js ''a\<newline>\<newline>b'') = js ''a\<newline>\<newline>b''"
    by (simp add: chunker_eval)
  have "blankLineSeparators (js ''a\<newline>\<newline>b'') = [blankLine]"
    by (simp add: chunker_eval)
  with t have "\<forall>sep \<in> set (blankLineSeparators (trim (js ''a\<newline>\<newline>b''))). sep = blankLine"
    by simp
  with C1_chunks_rejoin_paragraphs [of "js ''a\<newline>\<newline>b''" exampleConfig "Num 100" "js ''m''" "[]"]
  have "joinWith blankLine
     (fst (splitIntoTokenChunks exampleConfig (js ''a\<newline>\<newline>b'') (Num 100) (js ''m'') []))
     = trim (js ''a\<newline>\<newline>b'')"
    by blast
  with t show ?thesis by simp
qed




section \<open>Validator\<close>

text \<open>\<open>text.replace(/\s+/g, ' ')\<close>: every maximal run of white space becomes one space.\<close>

function collapseSpaces :: "jsstring \<Rightarrow> jsstring" where
  "collapseSpaces [] = []"
| "collapseSpaces (c # cs) =
     (if isSpace c then 32 # collapseSpaces (dropWhile isSpace cs) else c # collapseSpaces cs)"
  by pat_completeness auto
termination
  by (relation "measure length") (auto simp: less_Suc_eq_le length_dropWhile_le)

definition normalizeWhitespace :: "jsstring \<Rightarrow> jsstring" where
  "normalizeWhitespace text = trim (collapseSpaces text)"

text \<open>
  A match of \<open>\s*([DASHES])\s*\<close>, where the class holds U+2014 and U+2013, at the start of \<open>s\<close>: the dash and the text after
  the match. The leading \<open>\s*\<close> takes the whole run of white space, and no shorter run is
  followed by a dash.
\<close>

definition isDash :: "nat \<Rightarrow> bool" where
  "isDash c = (c = 8212 \<or> c = 8211)"

definition matchDash :: "jsstring \<Rightarrow> (nat \<times> jsstring) option" where
  "matchDash s =
     (case dropWhile isSpace s of
        d # r \<Rightarrow> if isDash d then Some (d, dropWhile isSpace r) else None
      | [] \<Rightarrow> None)"

text \<open>\<open>text.replace(/\s*([DASHES])\s*/g, ' $1 ')\<close>: a scan from the left; a match is
  replaced and the scan goes on after it, any other character is kept.\<close>

function normalizeDashSpacing :: "jsstring \<Rightarrow> jsstring" where
  "normalizeDashSpacing [] = []"
| "normalizeDashSpacing (c # cs) =
     (case matchDash (c # cs) of
        Some (d, rest) \<Rightarrow> 32 # d # 32 # normalizeDashSpacing rest
      | None \<Rightarrow> c # normalizeDashSpacing cs)"
  by pat_completeness auto
termination
proof (relation "measure length")
  fix c :: nat and cs x2 d rest
  assume "matchDash (c # cs) = Some x2" and "(d, rest) = x2"
  then obtain r where dr: "dropWhile isSpace (c # cs) = d # r" and rest: "rest = dropWhile isSpace r"
    by (auto simp: matchDash_def split: list.splits if_splits)
  have "length rest \<le> length r" unfolding rest by (rule length_dropWhile_le)
  also have "length r < length (dropWhile isSpace (c # cs))" unfolding dr by simp
  also have "\<dots> \<le> length (c # cs)" by (rule length_dropWhile_le)
  finally show "(rest, c # cs) \<in> measure length" by simp
qed simp_all

text \<open>
  The part \<open>.*(?:\n(?!\[\^\d+\]:).*)*\<close> of \<open>FOOTNOTE_DEF_BLOCK_RE\<close>, matched at the start of
  \<open>s\<close>: the rest of the line, then every following line that does not start with a
  definition head, each entered through a line feed. The result is the matched text and
  the text after it.
\<close>

function defBlockLines :: "jsstring \<Rightarrow> jsstring \<times> jsstring" where
  "defBlockLines s =
     (case dropWhile (\<lambda>c. \<not> isLineTerminator c) s of
        [] \<Rightarrow> (s, [])
      | c # r \<Rightarrow>
          if c = 10 \<and> matchDefHead r = None
          then (case defBlockLines r of
                  (m, rest) \<Rightarrow> (takeWhile (\<lambda>c. \<not> isLineTerminator c) s @ 10 # m, rest))
          else (takeWhile (\<lambda>c. \<not> isLineTerminator c) s, c # r))"
  by pat_completeness auto
termination
proof (relation "measure length")
  fix s :: jsstring and c r
  assume "dropWhile (\<lambda>c. \<not> isLineTerminator c) s = c # r"
  then have "length r < length (dropWhile (\<lambda>c. \<not> isLineTerminator c) s)" by simp
  also have "\<dots> \<le> length s" by (rule length_dropWhile_le)
  finally show "(r, s) \<in> measure length" by simp
qed simp

declare defBlockLines.simps [simp del]

text \<open>A match of \<open>FOOTNOTE_DEF_BLOCK_RE\<close> at the start of \<open>s\<close>: the matched block and the
  text after it.\<close>

definition matchDefBlock :: "jsstring \<Rightarrow> (jsstring \<times> jsstring) option" where
  "matchDefBlock s =
     (case s of
        [] \<Rightarrow> None
      | c # r \<Rightarrow>
          if c = 10 then
            (case matchDefHead r of
               Some (ds, t) \<Rightarrow>
                 (case defBlockLines t of
                    (m, rest) \<Rightarrow> Some (10 # 91 # 94 # ds @ 93 # 58 # m, rest))
             | None \<Rightarrow> None)
          else None)"

subsection \<open>What the matchers consume\<close>

lemma matchMarker_Some:
  assumes "matchMarker s = Some (ds, t)"
  shows "s = 91 # 94 # ds @ 93 # t" and "ds \<noteq> []" and "\<forall>d \<in> set ds. isDigit d"
proof -
  from assms obtain r where s: "s = 91 # 94 # r" and ne: "takeWhile isDigit r \<noteq> []"
    and d: "dropWhile isDigit r = 93 # t" and ds: "ds = takeWhile isDigit r"
    by (auto simp: matchMarker_def split: list.splits if_splits)
  have "r = takeWhile isDigit r @ dropWhile isDigit r" by simp
  with d ds have "r = ds @ 93 # t" by simp
  with s show "s = 91 # 94 # ds @ 93 # t" by simp
  from ne ds show "ds \<noteq> []" by simp
  from ds show "\<forall>d \<in> set ds. isDigit d" by (auto dest: set_takeWhileD)
qed

lemma matchDefHead_Some:
  assumes "matchDefHead s = Some (ds, t)"
  shows "s = 91 # 94 # ds @ 93 # 58 # t" and "ds \<noteq> []" and "\<forall>d \<in> set ds. isDigit d"
proof -
  from assms have m: "matchMarker s = Some (ds, 58 # t)"
    by (auto simp: matchDefHead_def split: option.splits list.splits if_splits)
  from matchMarker_Some [OF m] show "s = 91 # 94 # ds @ 93 # 58 # t" and "ds \<noteq> []"
    and "\<forall>d \<in> set ds. isDigit d" by simp_all
qed

lemma defBlockLines_append: "defBlockLines s = (m, rest) \<Longrightarrow> s = m @ rest"
proof (induction s arbitrary: m rest rule: defBlockLines.induct)
  case (1 s)
  let ?l = "takeWhile (\<lambda>c. \<not> isLineTerminator c) s"
  let ?d = "dropWhile (\<lambda>c. \<not> isLineTerminator c) s"
  have split: "s = ?l @ ?d" by simp
  show ?case
  proof (cases ?d)
    case Nil
    with "1.prems" show ?thesis by (simp add: defBlockLines.simps [of s])
  next
    case (Cons c r)
    show ?thesis
    proof (cases "c = 10 \<and> matchDefHead r = None")
      case True
      obtain m' rest' where rec: "defBlockLines r = (m', rest')" by (cases "defBlockLines r")
      from "1.IH" [OF Cons True rec] have r: "r = m' @ rest'" .
      from "1.prems" Cons True rec have "m = ?l @ 10 # m'" "rest = rest'"
        by (simp_all add: defBlockLines.simps [of s])
      with r True Cons split show ?thesis by (metis append.assoc append_Cons)
    next
      case False
      with "1.prems" Cons have "m = ?l" "rest = c # r"
        by (auto simp: defBlockLines.simps [of s])
      with Cons split show ?thesis by simp
    qed
  qed
qed

lemma matchDefBlock_Some:
  assumes "matchDefBlock s = Some (block, rest)"
  shows "s = block @ rest" and "length rest < length s"
proof -
  from assms obtain r ds t m where s: "s = 10 # r" and h: "matchDefHead r = Some (ds, t)"
    and l: "defBlockLines t = (m, rest)" and b: "block = 10 # 91 # 94 # ds @ 93 # 58 # m"
    by (auto simp: matchDefBlock_def split: list.splits if_splits option.splits prod.splits)
  from matchDefHead_Some(1) [OF h] defBlockLines_append [OF l] s b
  show "s = block @ rest" by simp
  then have "length s = length block + length rest" by (metis length_append)
  with b show "length rest < length s" by simp
qed

subsection \<open>Stripping footnote syntax, the two checks\<close>

text \<open>\<open>annotated.replace(FOOTNOTE_DEF_BLOCK_RE, '')\<close>.\<close>

function removeDefBlocks :: "jsstring \<Rightarrow> jsstring" where
  "removeDefBlocks [] = []"
| "removeDefBlocks (c # cs) =
     (case matchDefBlock (c # cs) of
        Some (block, rest) \<Rightarrow> removeDefBlocks rest
      | None \<Rightarrow> c # removeDefBlocks cs)"
  by pat_completeness auto
termination
  by (relation "measure length") (auto dest: matchDefBlock_Some(2))

text \<open>\<open>body.replace(FOOTNOTE_REF_RE, '')\<close>.\<close>

function removeRefs :: "jsstring \<Rightarrow> jsstring" where
  "removeRefs [] = []"
| "removeRefs (c # cs) =
     (case matchMarker (c # cs) of
        Some (ds, rest) \<Rightarrow> removeRefs rest
      | None \<Rightarrow> c # removeRefs cs)"
  by pat_completeness auto
termination
  by (relation "measure length") (auto dest: matchMarker_Some(1))

text \<open>\<open>s.slice(start, end)\<close> for indices within the string.\<close>

definition sliceStr :: "jsstring \<Rightarrow> nat \<Rightarrow> nat \<Rightarrow> jsstring" where
  "sliceStr s start end = take (end - start) (drop start s)"

definition firstWords :: "jsstring \<Rightarrow> jsstring" where
  "firstWords s = joinWith [32] (take 8 (splitSpaces s))"

definition lastWords :: "jsstring \<Rightarrow> jsstring" where
  "lastWords s = joinWith [32] (sliceFrom (- 8) (splitSpaces s))"

definition validatePreserveSource :: "jsstring \<Rightarrow> jsstring \<Rightarrow> bool" where
  "validatePreserveSource src annotated =
     (let srcNorm = normalizeWhitespace (normalizeDashSpacing (trim src));
          body = removeRefs (removeDefBlocks annotated);
          bodyNorm = normalizeWhitespace (normalizeDashSpacing body)
      in if srcNorm = [] then True
         else if includesStr bodyNorm srcNorm then True
         else
           (case (indexOf bodyNorm (firstWords srcNorm), lastIndexOf bodyNorm (lastWords srcNorm)) of
              (Some start, Some end) \<Rightarrow>
                if end > start
                then (if includesStr (sliceStr bodyNorm start (end + length (lastWords srcNorm))) srcNorm
                      then True else False)
                else False
            | _ \<Rightarrow> False))"

definition validateFootnoteEmojis :: "jsstring \<Rightarrow> bool" where
  "validateFootnoteEmojis text =
     list_all (\<lambda>content. trimStart content \<noteq> []
         \<and> list_ex (\<lambda>emoji. startsWith (trimStart content) emoji) ALLOWED_EMOJIS)
       (defLineContents text)"

text \<open>The Validator accepts a candidate when both checks pass, as in
  \<open>annotateChunkWithPrompt\<close>.\<close>

definition validatorAccepts :: "jsstring \<Rightarrow> jsstring \<Rightarrow> bool" where
  "validatorAccepts src candidate =
     (validatePreserveSource src candidate \<and> validateFootnoteEmojis candidate)"

subsection \<open>The substring test and the windowed fallback\<close>

lemma startsWith_iff: "startsWith s p \<longleftrightarrow> (\<exists>t. s = p @ t)"
  by (induction s p rule: startsWith.induct) auto

lemma includesStr_iff: "includesStr s p \<longleftrightarrow> (\<exists>a b. s = a @ p @ b)"
proof (induction s)
  case Nil
  then show ?case by simp
next
  case (Cons c cs)
  show ?case
  proof
    assume "includesStr (c # cs) p"
    then consider "startsWith (c # cs) p" | "includesStr cs p" by auto
    then show "\<exists>a b. c # cs = a @ p @ b"
    proof cases
      case 1
      then obtain t where "c # cs = p @ t" by (auto simp: startsWith_iff)
      then have "c # cs = [] @ p @ t" by simp
      then show ?thesis by blast
    next
      case 2
      with Cons.IH obtain a b where "cs = a @ p @ b" by blast
      then have "c # cs = (c # a) @ p @ b" by simp
      then show ?thesis by blast
    qed
  next
    assume "\<exists>a b. c # cs = a @ p @ b"
    then obtain a b where ab: "c # cs = a @ p @ b" by blast
    show "includesStr (c # cs) p"
    proof (cases a)
      case Nil
      with ab have "startsWith (c # cs) p" by (auto simp: startsWith_iff)
      then show ?thesis by simp
    next
      case (Cons x a')
      with ab have "cs = a' @ p @ b" by simp
      with Cons.IH have "includesStr cs p" by blast
      then show ?thesis by simp
    qed
  qed
qed

lemma includesStr_sliceStr:
  assumes "includesStr (sliceStr s i j) p"
  shows "includesStr s p"
proof -
  from assms obtain a b where w: "take (j - i) (drop i s) = a @ p @ b"
    by (auto simp: includesStr_iff sliceStr_def)
  have "s = take i s @ take (j - i) (drop i s) @ drop (j - i) (drop i s)"
    by (simp only: append_take_drop_id)
  with w have "s = (take i s @ a) @ p @ (b @ drop (j - i) (drop i s))" by simp
  then show ?thesis unfolding includesStr_iff by blast
qed

text \<open>The equations that evaluate the Validator on a concrete text.\<close>

lemmas validator_eval = js_def trim_def trimEnd_def trimStart_def isSpace_def isDash_def matchDash_def
  normalizeWhitespace_def matchMarker_def matchDefHead_def matchDefBlock_def isDigit_def isLineTerminator_def
  defBlockLines.simps

text \<open>
  C9. For every source text and candidate, \<open>validatePreserveSource\<close> is true exactly when
  the normalized source is empty or occurs in the normalized candidate body (stripped of
  definition blocks and markers) as a contiguous substring: the window of the fallback is
  a slice of that body, so the fallback accepts nothing that the direct test rejected.
\<close>

theorem C9_fallback_adds_nothing:
  "validatePreserveSource src annotated
     = (normalizeWhitespace (normalizeDashSpacing (trim src)) = []
        \<or> includesStr (normalizeWhitespace (normalizeDashSpacing (removeRefs (removeDefBlocks annotated))))
             (normalizeWhitespace (normalizeDashSpacing (trim src))))
   \<and> includesStr (normalizeWhitespace (normalizeDashSpacing (removeRefs (removeDefBlocks annotated))))
             (normalizeWhitespace (normalizeDashSpacing (trim src)))
     = (\<exists>a b. normalizeWhitespace (normalizeDashSpacing (removeRefs (removeDefBlocks annotated)))
          = a @ normalizeWhitespace (normalizeDashSpacing (trim src)) @ b)"
proof -
  have "validatePreserveSource src annotated
     = (normalizeWhitespace (normalizeDashSpacing (trim src)) = []
        \<or> includesStr (normalizeWhitespace (normalizeDashSpacing (removeRefs (removeDefBlocks annotated))))
             (normalizeWhitespace (normalizeDashSpacing (trim src))))"
    unfolding validatePreserveSource_def Let_def
    by (auto split: option.splits dest: includesStr_sliceStr)
  then show ?thesis by (simp add: includesStr_iff)
qed

theorem C9_fallback_adds_nothing_witness: "validatePreserveSource (js ''sun set.'') (js ''sun[^1] set.\<newline>\<newline>[^1]: x\<newline>[^2]: y'')
  \<and> \<not> validatePreserveSource (js ''sun set.'') (js ''sun[^1].\<newline>\<newline>[^1]: x'')"
proof -
  have s: "normalizeWhitespace (normalizeDashSpacing (trim (js ''sun set.''))) = js ''sun set.''"
    by (simp add: validator_eval)
  have b1: "normalizeWhitespace (normalizeDashSpacing (removeRefs (removeDefBlocks
       (js ''sun[^1] set.\<newline>\<newline>[^1]: x\<newline>[^2]: y'')))) = js ''sun set.''"
    by (simp add: validator_eval)
  have b2: "normalizeWhitespace (normalizeDashSpacing (removeRefs (removeDefBlocks
       (js ''sun[^1].\<newline>\<newline>[^1]: x'')))) = js ''sun.''"
    by (simp add: validator_eval)
  show ?thesis
    using C9_fallback_adds_nothing [of "js ''sun set.''" "js ''sun[^1] set.\<newline>\<newline>[^1]: x\<newline>[^2]: y''"]
      C9_fallback_adds_nothing [of "js ''sun set.''" "js ''sun[^1].\<newline>\<newline>[^1]: x''"]
    unfolding s b1 b2 by (simp add: js_def)
qed

section \<open>FootnoteRenumberer: \<open>normalizeFootnotesSafe\<close>\<close>

text \<open>
  The offset \<open>start\<close> and the counter \<open>nextId\<close> are JavaScript numbers, that is doubles. The
  model takes them as the non-negative integers up to \<open>2^53\<close> = 9007199254740992, which
  doubles hold exactly; the program starts at 1 and goes on from a returned \<open>nextId\<close>.
  \<open>nextId += 1\<close> is exact below \<open>2^53\<close>; at \<open>2^53\<close> the sum \<open>2^53 + 1\<close> is no double and
  rounds back to \<open>2^53\<close>, so the counter stays where it is.
\<close>

definition jsIncrement :: "nat \<Rightarrow> nat" where
  "jsIncrement n = (if n < 9007199254740992 then n + 1 else n)"

text \<open>\<open>String(n)\<close> for such a number: its decimal digits.\<close>

function decimal :: "nat \<Rightarrow> jsstring" where
  "decimal n = (if n < 10 then [48 + n] else decimal (n div 10) @ [48 + n mod 10])"
  by pat_completeness auto
termination
  by (relation "measure id") auto

declare decimal.simps [simp del]

text \<open>A match object: where it starts, the identifier of group 1, and whether the marker
  (\<open>ref\<close>) or the definition (\<open>def\<close>) expression found it.\<close>

datatype kind = RefKind | DefKind

datatype item = Item (index: nat) (ident: jsstring) (kind: kind)

text \<open>A match of \<open>\[\^(\d+)\](?!:)\<close> at the start of \<open>s\<close>: a marker that no colon
  follows.\<close>

definition matchRef :: "jsstring \<Rightarrow> (jsstring \<times> jsstring) option" where
  "matchRef s =
     (case matchMarker s of
        Some (ds, t) \<Rightarrow>
          (case t of [] \<Rightarrow> Some (ds, t) | c # _ \<Rightarrow> if c = 58 then None else Some (ds, t))
      | None \<Rightarrow> None)"

text \<open>The two \<open>exec\<close> loops: the matches from the left, the scan going on after each
  match, with the index of the text that is left.\<close>

function scanRefs :: "nat \<Rightarrow> jsstring \<Rightarrow> item list" where
  "scanRefs i [] = []"
| "scanRefs i (c # cs) =
     (case matchRef (c # cs) of
        Some (ds, rest) \<Rightarrow> Item i ds RefKind # scanRefs (i + length ds + 3) rest
      | None \<Rightarrow> scanRefs (i + 1) cs)"
  by pat_completeness auto
termination
  by (relation "measure (\<lambda>(i, s). length s)")
    (auto simp: matchRef_def dest!: matchMarker_Some(1) split: option.splits list.splits if_splits)

function scanDefs :: "nat \<Rightarrow> jsstring \<Rightarrow> item list" where
  "scanDefs i [] = []"
| "scanDefs i (c # cs) =
     (case matchDefHead (c # cs) of
        Some (ds, rest) \<Rightarrow> Item i ds DefKind # scanDefs (i + length ds + 4) rest
      | None \<Rightarrow> scanDefs (i + 1) cs)"
  by pat_completeness auto
termination
  by (relation "measure (\<lambda>(i, s). length s)") (auto dest!: matchDefHead_Some(1))

text \<open>The \<open>forEach\<close> that collects the identifiers in their order of first appearance, on
  \<open>order\<close> and \<open>seen\<close>.\<close>

definition noteFirst :: "item \<Rightarrow> jsstring list \<times> jsstring set \<Rightarrow> jsstring list \<times> jsstring set" where
  "noteFirst it acc =
     (case acc of (order, seen) \<Rightarrow>
        if ident it \<in> seen then (order, seen) else (order @ [ident it], insert (ident it) seen))"

text \<open>The loop that fills \<open>mapping\<close>, on \<open>mapping\<close> and \<open>nextId\<close>.\<close>

definition assignId ::
  "jsstring \<Rightarrow> (jsstring \<rightharpoonup> jsstring) \<times> nat \<Rightarrow> (jsstring \<rightharpoonup> jsstring) \<times> nat" where
  "assignId oldId acc =
     (case acc of (mapping, nextId) \<Rightarrow> (mapping(oldId \<mapsto> decimal nextId), jsIncrement nextId))"

text \<open>One round of the rewriting loop, on \<open>result\<close>, \<open>mapping\<close> and \<open>nextId\<close>. An
  identifier without a (non-empty) entry in \<open>mapping\<close> would get the next number.\<close>

definition spliceItem :: "item \<Rightarrow> jsstring \<Rightarrow> jsstring \<Rightarrow> jsstring" where
  "spliceItem it newId result =
     (if kind it = DefKind
      then take (index it) result @ js ''[^'' @ newId @ js '']:''
             @ drop (index it + length (ident it) + 4) result
      else take (index it) result @ js ''[^'' @ newId @ js '']''
             @ drop (index it + length (ident it) + 3) result)"

definition rewriteItem ::
  "item \<Rightarrow> jsstring \<times> (jsstring \<rightharpoonup> jsstring) \<times> nat \<Rightarrow> jsstring \<times> (jsstring \<rightharpoonup> jsstring) \<times> nat" where
  "rewriteItem it acc =
     (case acc of (result, mapping, nextId) \<Rightarrow>
        (case mapping (ident it) of
           Some newId \<Rightarrow>
             if newId \<noteq> [] then (spliceItem it newId result, mapping, nextId)
             else (spliceItem it (decimal nextId) result,
                   mapping(ident it \<mapsto> decimal nextId), jsIncrement nextId)
         | None \<Rightarrow>
             (spliceItem it (decimal nextId) result,
              mapping(ident it \<mapsto> decimal nextId), jsIncrement nextId)))"

text \<open>\<open>normalizeFootnotesSafe\<close> returns the rewritten text and \<open>nextId\<close>. Both sorts are
  stable, as \<open>Array.prototype.sort\<close> is.\<close>

definition normalizeFootnotesSafe :: "jsstring \<Rightarrow> nat \<Rightarrow> jsstring \<times> nat" where
  "normalizeFootnotesSafe text start =
     (let refMatches = scanRefs 0 text;
          defMatches = scanDefs 0 text;
          order = fst (fold noteFirst (sort_key index (refMatches @ defMatches)) ([], {}));
          assigned = fold assignId order (Map.empty, start);
          items = sort_key (\<lambda>it. - int (index it)) (refMatches @ defMatches);
          rewritten = fold rewriteItem items (text, fst assigned, snd assigned)
      in (fst rewritten, snd (snd rewritten)))"

subsection \<open>The text as a sequence of characters, markers and definition heads\<close>

text \<open>
  The reading of a text that the claims about renumbering speak of: from the left, a
  definition head \<open>[^n]:\<close>, else a marker \<open>[^n]\<close>, else one character.
\<close>

datatype token = Chr nat | Marker kind jsstring

function tokens :: "jsstring \<Rightarrow> token list" where
  "tokens [] = []"
| "tokens (c # cs) =
     (case matchDefHead (c # cs) of
        Some (ds, rest) \<Rightarrow> Marker DefKind ds # tokens rest
      | None \<Rightarrow>
          (case matchRef (c # cs) of
             Some (ds, rest) \<Rightarrow> Marker RefKind ds # tokens rest
           | None \<Rightarrow> Chr c # tokens cs))"
  by pat_completeness auto
termination
  by (relation "measure length")
    (auto simp: matchRef_def dest!: matchDefHead_Some(1) matchMarker_Some(1)
      split: option.splits list.splits if_splits)

fun renderToken :: "token \<Rightarrow> jsstring" where
  "renderToken (Chr c) = [c]"
| "renderToken (Marker RefKind ds) = js ''[^'' @ ds @ js '']''"
| "renderToken (Marker DefKind ds) = js ''[^'' @ ds @ js '']:''"

definition render :: "token list \<Rightarrow> jsstring" where
  "render ts = concat (map renderToken ts)"

text \<open>The identifiers of a text in document order, markers and definitions alike.\<close>

fun identifiers :: "token list \<Rightarrow> jsstring list" where
  "identifiers [] = []"
| "identifiers (Chr c # ts) = identifiers ts"
| "identifiers (Marker k ds # ts) = ds # identifiers ts"

text \<open>The distinct elements of a list in the order of their first occurrence.\<close>

fun firstOccurrences :: "'a list \<Rightarrow> 'a list" where
  "firstOccurrences [] = []"
| "firstOccurrences (x # xs) = x # firstOccurrences (filter (\<lambda>y. y \<noteq> x) xs)"

text \<open>The new identifier of an old one: the old identifiers, in their order of first
  occurrence, get the values that the counter takes from \<open>start\<close> on.\<close>

fun newIds :: "jsstring list \<Rightarrow> nat \<Rightarrow> jsstring \<Rightarrow> jsstring option" where
  "newIds [] n a = None"
| "newIds (x # xs) n a = (if a = x then Some (decimal n) else newIds xs (jsIncrement n) a)"

fun renameToken :: "(jsstring \<rightharpoonup> jsstring) \<Rightarrow> token \<Rightarrow> token" where
  "renameToken m (Chr c) = Chr c"
| "renameToken m (Marker k ds) = Marker k (case m ds of Some new \<Rightarrow> new | None \<Rightarrow> ds)"

subsection \<open>The scans read the tokens\<close>

lemma render_Nil [simp]: "render [] = []" by (simp add: render_def)
lemma render_Cons [simp]: "render (t # ts) = renderToken t @ render ts" by (simp add: render_def)
lemma render_append [simp]: "render (ts @ us) = render ts @ render us" by (simp add: render_def)

lemma matchRef_Some:
  assumes "matchRef s = Some (ds, t)"
  shows "s = 91 # 94 # ds @ 93 # t" and "ds \<noteq> []" and "\<forall>d \<in> set ds. isDigit d"
    and "t = [] \<or> hd t \<noteq> 58"
proof -
  from assms have m: "matchMarker s = Some (ds, t)" and t: "t = [] \<or> hd t \<noteq> 58"
    by (auto simp: matchRef_def split: option.splits list.splits if_splits)
  from matchMarker_Some [OF m] t show "s = 91 # 94 # ds @ 93 # t" and "ds \<noteq> []"
    and "\<forall>d \<in> set ds. isDigit d" and "t = [] \<or> hd t \<noteq> 58" by simp_all
qed

lemma tokens_induct [case_names Nil Def Ref Chr]:
  assumes "P []"
    and "\<And>c cs ds rest. matchDefHead (c # cs) = Some (ds, rest) \<Longrightarrow> P rest \<Longrightarrow> P (c # cs)"
    and "\<And>c cs ds rest. matchDefHead (c # cs) = None \<Longrightarrow> matchRef (c # cs) = Some (ds, rest)
           \<Longrightarrow> P rest \<Longrightarrow> P (c # cs)"
    and "\<And>c cs. matchDefHead (c # cs) = None \<Longrightarrow> matchRef (c # cs) = None \<Longrightarrow> P cs \<Longrightarrow> P (c # cs)"
  shows "P s"
proof (induction s rule: tokens.induct)
  case 1
  show ?case by (rule assms(1))
next
  case (2 c cs)
  show ?case
  proof (cases "matchDefHead (c # cs)")
    case (Some a)
    obtain ds rest where a: "a = (ds, rest)" by (cases a)
    from Some a have "P rest" by (intro "2.IH"(3) [of a ds rest]) simp_all
    with Some a show ?thesis by (intro assms(2) [of c cs ds rest]) simp_all
  next
    case None
    show ?thesis
    proof (cases "matchRef (c # cs)")
      case (Some a)
      obtain ds rest where a: "a = (ds, rest)" by (cases a)
      from None Some a have "P rest" by (intro "2.IH"(2) [of a ds rest]) simp_all
      with None Some a show ?thesis by (intro assms(3) [of c cs ds rest]) simp_all
    next
      case None': None
      with None have "P cs" by (intro "2.IH"(1))
      with None None' show ?thesis by (intro assms(4))
    qed
  qed
qed

lemma tokens_Def: "matchDefHead (c # cs) = Some (ds, rest) \<Longrightarrow> tokens (c # cs) = Marker DefKind ds # tokens rest"
  by simp

lemma tokens_Ref:
  "matchDefHead (c # cs) = None \<Longrightarrow> matchRef (c # cs) = Some (ds, rest)
   \<Longrightarrow> tokens (c # cs) = Marker RefKind ds # tokens rest"
  by simp

lemma tokens_Chr:
  "matchDefHead (c # cs) = None \<Longrightarrow> matchRef (c # cs) = None \<Longrightarrow> tokens (c # cs) = Chr c # tokens cs"
  by simp

lemma render_tokens: "render (tokens s) = s"
proof (induction s rule: tokens_induct)
  case Nil
  then show ?case by simp
next
  case (Def c cs ds rest)
  from matchDefHead_Some(1) [OF Def(1)] Def show ?case by (simp add: js_def)
next
  case (Ref c cs ds rest)
  from matchRef_Some(1) [OF Ref(2)] Ref show ?case by (simp add: js_def)
next
  case (Chr c cs)
  then show ?case by simp
qed

text \<open>The match objects of a token sequence that starts at index \<open>i\<close> of the text.\<close>

fun itemsOf :: "nat \<Rightarrow> token list \<Rightarrow> item list" where
  "itemsOf i [] = []"
| "itemsOf i (Chr c # ts) = itemsOf (i + 1) ts"
| "itemsOf i (Marker k ds # ts) = Item i ds k # itemsOf (i + length (renderToken (Marker k ds))) ts"

lemma matchMarker_other: "c \<noteq> 91 \<Longrightarrow> matchMarker (c # cs) = None"
  by (simp add: matchMarker_def split: list.splits)

lemma matchRef_other: "c \<noteq> 91 \<Longrightarrow> matchRef (c # cs) = None"
  by (simp add: matchRef_def matchMarker_other)

lemma matchDefHead_other: "c \<noteq> 91 \<Longrightarrow> matchDefHead (c # cs) = None"
  by (simp add: matchDefHead_def matchMarker_other)

lemma scanRefs_skip: "91 \<notin> set p \<Longrightarrow> scanRefs i (p @ rest) = scanRefs (i + length p) rest"
  by (induction p arbitrary: i) (simp_all add: matchRef_other)

lemma scanDefs_skip: "91 \<notin> set p \<Longrightarrow> scanDefs i (p @ rest) = scanDefs (i + length p) rest"
  by (induction p arbitrary: i) (simp_all add: matchDefHead_other)

lemma tokens_skip: "91 \<notin> set p \<Longrightarrow> tokens (p @ rest) = map Chr p @ tokens rest"
  by (induction p) (simp_all add: matchRef_other matchDefHead_other)

lemma digits_no_bracket: "\<forall>d \<in> set ds. isDigit d \<Longrightarrow> 91 \<notin> set ds"
  by (auto simp: isDigit_def)

lemma matchDefHead_matchRef: "matchDefHead s = Some (ds, rest) \<Longrightarrow> matchRef s = None"
  by (auto simp: matchDefHead_def matchRef_def split: option.splits list.splits if_splits)

lemma scanRefs_tokens: "scanRefs i s = filter (\<lambda>it. kind it = RefKind) (itemsOf i (tokens s))"
proof (induction s arbitrary: i rule: tokens_induct)
  case Nil
  then show ?case by simp
next
  case (Def c cs ds rest)
  note h = matchDefHead_Some [OF Def(1)]
  from h(1) have cs: "cs = (94 # ds @ [93, 58]) @ rest" by simp
  from h(3) have "91 \<notin> set (94 # ds @ [93, 58])" by (auto dest: digits_no_bracket)
  then have "scanRefs (i + 1) cs = scanRefs (i + 1 + length (94 # ds @ [93, 58])) rest"
    unfolding cs by (rule scanRefs_skip)
  with Def(1) matchDefHead_matchRef [OF Def(1)] Def(2) [of "i + length ds + 4"] show ?case
    by (simp add: js_def eval_nat_numeral)
next
  case (Ref c cs ds rest)
  with Ref(3) [of "i + length ds + 3"] show ?case by (simp add: js_def eval_nat_numeral)
next
  case (Chr c cs)
  with Chr(3) [of "i + 1"] show ?case by simp
qed

lemma scanDefs_tokens: "scanDefs i s = filter (\<lambda>it. kind it = DefKind) (itemsOf i (tokens s))"
proof (induction s arbitrary: i rule: tokens_induct)
  case Nil
  then show ?case by simp
next
  case (Def c cs ds rest)
  with Def(2) [of "i + length ds + 4"] show ?case by (simp add: js_def eval_nat_numeral)
next
  case (Ref c cs ds rest)
  note h = matchRef_Some [OF Ref(2)]
  from h(1) have cs: "cs = (94 # ds @ [93]) @ rest" by simp
  from h(3) have "91 \<notin> set (94 # ds @ [93])" by (auto dest: digits_no_bracket)
  then have "scanDefs (i + 1) cs = scanDefs (i + 1 + length (94 # ds @ [93])) rest"
    unfolding cs by (rule scanDefs_skip)
  with Ref(1,2) Ref(3) [of "i + length ds + 3"] show ?case
    by (simp add: js_def eval_nat_numeral)
next
  case (Chr c cs)
  with Chr(3) [of "i + 1"] show ?case by simp
qed

lemma itemsOf_lower: "it \<in> set (itemsOf i ts) \<Longrightarrow> i \<le> index it"
proof (induction i ts rule: itemsOf.induct)
  case (1 i)
  then show ?case by simp
next
  case (2 i c ts)
  then show ?case by fastforce
next
  case (3 i k ds ts)
  then show ?case by fastforce
qed

lemma itemsOf_increasing: "sorted_wrt (\<lambda>a b. index a < index b) (itemsOf i ts)"
proof (induction i ts rule: itemsOf.induct)
  case (1 i)
  then show ?case by simp
next
  case (2 i c ts)
  then show ?case by simp
next
  case (3 i k ds ts)
  have "\<forall>it \<in> set (itemsOf (i + length (renderToken (Marker k ds))) ts). i < index it"
  proof
    fix it assume "it \<in> set (itemsOf (i + length (renderToken (Marker k ds))) ts)"
    from itemsOf_lower [OF this] show "i < index it" by (cases k) (simp_all add: js_def)
  qed
  with 3 show ?case by simp
qed

lemma filter_same_key:
  assumes "distinct (map f xs)" and "k \<in> set xs"
  shows "filter (\<lambda>x. f k = f x) xs = [k]"
  using assms
proof (induction xs)
  case Nil
  then show ?case by simp
next
  case (Cons x xs)
  show ?case
  proof (cases "x = k")
    case True
    with Cons.prems have "\<forall>y \<in> set xs. f k \<noteq> f y" by auto
    then have "filter (\<lambda>x. f k = f x) xs = []" by (simp add: filter_empty_conv)
    with True show ?thesis by simp
  next
    case False
    with Cons.prems have "k \<in> set xs" by auto
    moreover from this Cons.prems have "f k \<noteq> f x"
      by (metis distinct.simps(2) image_eqI list.simps(9) set_map)
    ultimately have "k \<in> set xs" "f k \<noteq> f x" by simp_all
    with Cons show ?thesis by simp
  qed
qed

lemma sort_key_unique:
  assumes "mset ys = mset xs" and "distinct (map f ys)" and "sorted (map f ys)"
  shows "sort_key f xs = ys"
proof (rule properties_for_sort_key [OF assms(1) _ assms(3)])
  fix k assume k: "k \<in> set ys"
  from assms(1) have "mset (map f ys) = mset (map f xs)" by simp
  with assms(2) have dx: "distinct (map f xs)" by (metis mset_eq_imp_distinct_iff)
  from k assms(1) have kx: "k \<in> set xs" by (metis mset_eq_setD)
  from filter_same_key [OF assms(2) k] filter_same_key [OF dx kx]
  show "filter (\<lambda>x. f k = f x) ys = filter (\<lambda>x. f k = f x) xs" by simp
qed

lemma sorted_items_ascending:
  "sort_key index (scanRefs 0 s @ scanDefs 0 s) = itemsOf 0 (tokens s)"
proof (rule sort_key_unique)
  have "mset (itemsOf 0 (tokens s))
      = mset (filter (\<lambda>it. kind it = RefKind) (itemsOf 0 (tokens s)))
        + mset (filter (\<lambda>it. \<not> kind it = RefKind) (itemsOf 0 (tokens s)))"
    by simp
  also have "(\<lambda>it. \<not> kind it = RefKind) = (\<lambda>it. kind it = DefKind)"
    by (rule ext) (metis kind.exhaust kind.distinct(1))
  finally show "mset (itemsOf 0 (tokens s)) = mset (scanRefs 0 s @ scanDefs 0 s)"
    by (simp add: scanRefs_tokens scanDefs_tokens)
  have "sorted_wrt (<) (map index (itemsOf 0 (tokens s)))"
    using itemsOf_increasing [of 0 "tokens s"] by (simp add: sorted_wrt_map)
  then show "distinct (map index (itemsOf 0 (tokens s)))" and "sorted (map index (itemsOf 0 (tokens s)))"
    by (simp_all add: strict_sorted_iff)
qed

lemma sorted_items_descending:
  "sort_key (\<lambda>it. - int (index it)) (scanRefs 0 s @ scanDefs 0 s) = rev (itemsOf 0 (tokens s))"
proof (rule sort_key_unique)
  have "mset (itemsOf 0 (tokens s))
      = mset (filter (\<lambda>it. kind it = RefKind) (itemsOf 0 (tokens s)))
        + mset (filter (\<lambda>it. \<not> kind it = RefKind) (itemsOf 0 (tokens s)))"
    by simp
  also have "(\<lambda>it. \<not> kind it = RefKind) = (\<lambda>it. kind it = DefKind)"
    by (rule ext) (metis kind.exhaust kind.distinct(1))
  finally show "mset (rev (itemsOf 0 (tokens s))) = mset (scanRefs 0 s @ scanDefs 0 s)"
    by (simp add: scanRefs_tokens scanDefs_tokens)
  have "sorted_wrt (\<lambda>a b. - int (index b) < - int (index a)) (itemsOf 0 (tokens s))"
    using itemsOf_increasing [of 0 "tokens s"] by simp
  then have "sorted_wrt (<) (map (\<lambda>it. - int (index it)) (rev (itemsOf 0 (tokens s))))"
    by (simp add: sorted_wrt_map sorted_wrt_rev rev_map [symmetric])
  then show "distinct (map (\<lambda>it. - int (index it)) (rev (itemsOf 0 (tokens s))))"
    and "sorted (map (\<lambda>it. - int (index it)) (rev (itemsOf 0 (tokens s))))"
    by (simp_all only: strict_sorted_iff)
qed

subsection \<open>The loops compute the renumbering\<close>

lemma ident_itemsOf: "map ident (itemsOf i ts) = identifiers ts"
  by (induction i ts rule: itemsOf.induct) simp_all

lemma set_firstOccurrences: "set (firstOccurrences xs) = set xs"
proof (induction xs rule: firstOccurrences.induct)
  case 1
  then show ?case by simp
next
  case (2 x xs)
  then show ?case by auto
qed

lemma distinct_firstOccurrences: "distinct (firstOccurrences xs)"
proof (induction xs rule: firstOccurrences.induct)
  case 1
  then show ?case by simp
next
  case (2 x xs)
  then show ?case by (simp add: set_firstOccurrences)
qed

lemma fold_noteFirst:
  "fold noteFirst its (order, set order)
     = (order @ firstOccurrences (filter (\<lambda>y. y \<notin> set order) (map ident its)),
        set order \<union> set (map ident its))"
proof (induction its arbitrary: order)
  case Nil
  then show ?case by simp
next
  case (Cons it its)
  show ?case
  proof (cases "ident it \<in> set order")
    case True
    with Cons [of order] show ?thesis by (auto simp: noteFirst_def)
  next
    case False
    have f: "filter (\<lambda>y. y \<notin> set (order @ [ident it])) (map ident its)
        = filter (\<lambda>y. y \<noteq> ident it) (filter (\<lambda>y. y \<notin> set order) (map ident its))"
      by (auto intro: filter_cong)
    have "fold noteFirst (it # its) (order, set order)
        = fold noteFirst its (order @ [ident it], set (order @ [ident it]))"
      using False by (simp add: noteFirst_def)
    also have "\<dots> = ((order @ [ident it]) @ firstOccurrences (filter (\<lambda>y. y \<notin> set (order @ [ident it])) (map ident its)),
        set (order @ [ident it]) \<union> set (map ident its))"
      by (rule Cons)
    finally show ?thesis using False unfolding f by (simp del: filter_filter)
  qed
qed

lemma order_computed:
  "fst (fold noteFirst (itemsOf 0 ts) ([], {})) = firstOccurrences (identifiers ts)"
  using fold_noteFirst [of "itemsOf 0 ts" "[]"] by (simp add: ident_itemsOf)

lemma newIds_None: "newIds xs n a = None \<longleftrightarrow> a \<notin> set xs"
  by (induction xs n a rule: newIds.induct) auto

lemma jsIncrement_funpow: "n + k \<le> 9007199254740992 \<Longrightarrow> (jsIncrement ^^ k) n = n + k"
  by (induction k) (simp_all add: jsIncrement_def)

lemma fold_assignId:
  "distinct order \<Longrightarrow>
   fold assignId order (m, n) = (m ++ newIds order n, (jsIncrement ^^ length order) n)"
proof (induction order arbitrary: m n)
  case Nil
  have "m ++ newIds [] n = m" by (simp add: map_add_def fun_eq_iff)
  then show ?case by simp
next
  case (Cons x xs)
  from Cons.prems have "newIds xs (jsIncrement n) x = None" by (simp add: newIds_None)
  then have "m(x \<mapsto> decimal n) ++ newIds xs (jsIncrement n) = m ++ newIds (x # xs) n"
    by (auto simp: map_add_def fun_eq_iff split: option.splits)
  moreover have "fold assignId xs (m(x \<mapsto> decimal n), jsIncrement n)
      = (m(x \<mapsto> decimal n) ++ newIds xs (jsIncrement n), (jsIncrement ^^ length xs) (jsIncrement n))"
    using Cons.prems by (intro Cons.IH) simp
  moreover have "assignId x (m, n) = (m(x \<mapsto> decimal n), jsIncrement n)"
    by (simp add: assignId_def)
  ultimately show ?case by (simp del: newIds.simps add: funpow_swap1)
qed

lemma newIds_nth:
  "distinct xs \<Longrightarrow> i < length xs \<Longrightarrow> n + i \<le> 9007199254740992 \<Longrightarrow>
   newIds xs n (xs ! i) = Some (decimal (n + i))"
proof (induction xs arbitrary: n i)
  case Nil
  then show ?case by simp
next
  case (Cons x xs)
  show ?case
  proof (cases i)
    case 0
    then show ?thesis by simp
  next
    case (Suc j)
    with Cons.prems have "xs ! j \<noteq> x" by auto
    moreover from Suc Cons.prems have "jsIncrement n = n + 1" by (simp add: jsIncrement_def)
    ultimately show ?thesis using Suc Cons.prems Cons.IH [of j "n + 1"] by simp
  qed
qed

lemma decimal_nonempty: "decimal n \<noteq> []"
  by (subst decimal.simps) simp

lemma newIds_nonempty: "newIds xs n a = Some v \<Longrightarrow> v \<noteq> []"
  by (induction xs n a rule: newIds.induct) (auto simp: decimal_nonempty split: if_splits)

lemma spliceItem_at:
  "length pre = i \<Longrightarrow>
   spliceItem (Item i ds k) new (pre @ renderToken (Marker k ds) @ post)
     = pre @ renderToken (Marker k new) @ post"
  by (cases k) (simp_all add: spliceItem_def js_def eval_nat_numeral)

lemma foldr_rewriteItem:
  assumes "\<forall>ds \<in> set (identifiers ts). \<exists>v. m ds = Some v \<and> v \<noteq> []"
    and "length pre = i"
  shows "foldr rewriteItem (itemsOf i ts) (pre @ render ts, m, n)
       = (pre @ render (map (renameToken m) ts), m, n)"
  using assms
proof (induction ts arbitrary: pre i)
  case Nil
  then show ?case by simp
next
  case (Cons t ts)
  show ?case
  proof (cases t)
    case (Chr c)
    with Cons.prems have "foldr rewriteItem (itemsOf (i + 1) ts) ((pre @ [c]) @ render ts, m, n)
       = ((pre @ [c]) @ render (map (renameToken m) ts), m, n)"
      by (intro Cons.IH) simp_all
    with Chr show ?thesis by simp
  next
    case (Marker k ds)
    from Cons.prems Marker obtain v where v: "m ds = Some v" "v \<noteq> []" by auto
    let ?r = "renderToken (Marker k ds)"
    from Cons.prems Marker
    have "foldr rewriteItem (itemsOf (i + length ?r) ts) ((pre @ ?r) @ render ts, m, n)
       = ((pre @ ?r) @ render (map (renameToken m) ts), m, n)"
      by (intro Cons.IH) simp_all
    then have "foldr rewriteItem (itemsOf i (t # ts)) (pre @ render (t # ts), m, n)
       = rewriteItem (Item i ds k) (pre @ ?r @ render (map (renameToken m) ts), m, n)"
      using Marker by simp
    also have "\<dots> = (pre @ renderToken (Marker k v) @ render (map (renameToken m) ts), m, n)"
      using v Cons.prems(2) by (simp add: rewriteItem_def spliceItem_at)
    finally show ?thesis using Marker v by simp
  qed
qed

text \<open>The renumbered text: every identifier replaced by its new one, nothing else
  touched.\<close>

definition renumbered :: "jsstring \<Rightarrow> nat \<Rightarrow> jsstring" where
  "renumbered text start =
     render (map (renameToken (newIds (firstOccurrences (identifiers (tokens text))) start)) (tokens text))"

lemma normalizeFootnotesSafe_tokens:
  "normalizeFootnotesSafe text start
     = (renumbered text start,
        (jsIncrement ^^ length (firstOccurrences (identifiers (tokens text)))) start)"
proof -
  let ?ts = "tokens text"
  let ?order = "firstOccurrences (identifiers ?ts)"
  let ?m = "newIds ?order start"
  have "Map.empty ++ ?m = ?m" by simp
  then have asg: "fold assignId ?order (Map.empty, start) = (?m, (jsIncrement ^^ length ?order) start)"
    using fold_assignId [OF distinct_firstOccurrences, of "identifiers ?ts" Map.empty start] by simp
  have known: "\<forall>ds \<in> set (identifiers ?ts). \<exists>v. ?m ds = Some v \<and> v \<noteq> []"
  proof
    fix ds assume "ds \<in> set (identifiers ?ts)"
    then have "?m ds \<noteq> None" by (simp add: newIds_None set_firstOccurrences)
    then obtain v where "?m ds = Some v" by blast
    with newIds_nonempty [OF this] show "\<exists>v. ?m ds = Some v \<and> v \<noteq> []" by blast
  qed
  have "fold rewriteItem (rev (itemsOf 0 ?ts)) (text, ?m, (jsIncrement ^^ length ?order) start)
      = foldr rewriteItem (itemsOf 0 ?ts) ([] @ render ?ts, ?m, (jsIncrement ^^ length ?order) start)"
    by (simp add: foldr_conv_fold render_tokens)
  also have "\<dots> = ([] @ render (map (renameToken ?m) ?ts), ?m, (jsIncrement ^^ length ?order) start)"
    using known by (rule foldr_rewriteItem) simp
  finally have rw: "fold rewriteItem (rev (itemsOf 0 ?ts)) (text, ?m, (jsIncrement ^^ length ?order) start)
      = (renumbered text start, ?m, (jsIncrement ^^ length ?order) start)"
    by (simp add: renumbered_def)
  show ?thesis
    unfolding normalizeFootnotesSafe_def Let_def sorted_items_ascending sorted_items_descending
      order_computed asg fst_conv snd_conv rw ..
qed

subsection \<open>Renumbering keeps the reading of the text\<close>

text \<open>A non-empty string of digits, as every identifier is.\<close>

definition digitsOnly :: "jsstring \<Rightarrow> bool" where
  "digitsOnly v = (v \<noteq> [] \<and> (\<forall>d \<in> set v. isDigit d))"

lemma takeWhile_digits:
  assumes "\<forall>d \<in> set v. isDigit d" and "t = [] \<or> \<not> isDigit (hd t)"
  shows "takeWhile isDigit (v @ t) = v" and "dropWhile isDigit (v @ t) = t"
proof -
  from assms(2) have t: "takeWhile isDigit t = []" "dropWhile isDigit t = t"
    by (cases t; simp)+
  from assms(1) show "takeWhile isDigit (v @ t) = v" by (simp add: takeWhile_append2 t)
  from assms(1) show "dropWhile isDigit (v @ t) = t" by (simp add: dropWhile_append2 t)
qed

lemma matchMarker_built: "digitsOnly v \<Longrightarrow> matchMarker (91 # 94 # v @ 93 # t) = Some (v, t)"
proof -
  assume v: "digitsOnly v"
  have "\<not> isDigit (hd (93 # t))" by (simp add: isDigit_def)
  then have "takeWhile isDigit (v @ 93 # t) = v" "dropWhile isDigit (v @ 93 # t) = 93 # t"
    using v takeWhile_digits [of v "93 # t"] by (simp_all add: digitsOnly_def)
  with v show ?thesis by (simp add: matchMarker_def digitsOnly_def)
qed

lemma matchers_None: "matchDefHead s = None \<Longrightarrow> matchRef s = None \<Longrightarrow> matchMarker s = None"
  by (auto simp: matchDefHead_def matchRef_def split: option.splits list.splits if_splits)

lemma take1_render:
  "take 1 (render (map (renameToken m) (tokens s))) = take 1 s"
proof (cases s)
  case Nil
  then show ?thesis by simp
next
  case (Cons c cs)
  show ?thesis
  proof (cases "matchDefHead (c # cs)")
    case (Some a)
    obtain ds rest where a: "a = (ds, rest)" by (cases a)
    from matchDefHead_Some(1) [of "c # cs" ds rest] Some a Cons show ?thesis by (simp add: js_def)
  next
    case None
    show ?thesis
    proof (cases "matchRef (c # cs)")
      case (Some a)
      obtain ds rest where a: "a = (ds, rest)" by (cases a)
      from matchRef_Some(1) [of "c # cs" ds rest] Some a None Cons show ?thesis by (simp add: js_def)
    next
      case None': None
      with None Cons show ?thesis by simp
    qed
  qed
qed

lemma render_Chr: "render (map (renameToken m \<circ> Chr) p) = p"
  by (induction p) simp_all

lemma matchMarker_open:
  "matchMarker (91 # 94 # r) =
     (if takeWhile isDigit r \<noteq> [] \<and> dropWhile isDigit r \<noteq> [] \<and> hd (dropWhile isDigit r) = 93
      then Some (takeWhile isDigit r, tl (dropWhile isDigit r)) else None)"
proof (cases "dropWhile isDigit r")
  case Nil
  then show ?thesis unfolding matchMarker_def by (simp del: dropWhile_eq_Nil_conv)
next
  case (Cons d t)
  then show ?thesis unfolding matchMarker_def by (simp del: dropWhile_eq_Nil_conv)
qed

lemma take1_cases: "take 1 a = take 1 b \<Longrightarrow> (a = [] \<and> b = []) \<or> (a \<noteq> [] \<and> b \<noteq> [] \<and> hd a = hd b)"
  by (cases a; cases b) auto

lemma matchMarker_None_render:
  assumes "matchMarker (c # cs) = None"
  shows "matchMarker (c # render (map (renameToken m) (tokens cs))) = None"
proof (cases "c = 91")
  case False
  then show ?thesis by (rule matchMarker_other)
next
  case c: True
  let ?R = "render (map (renameToken m) (tokens cs))"
  show ?thesis
  proof (cases cs)
    case Nil
    then show ?thesis by (simp add: matchMarker_def)
  next
    case (Cons c2 cs2)
    show ?thesis
    proof (cases "c2 = 94")
      case False
      from take1_render [of m cs] Cons obtain R2 where "?R = c2 # R2"
        by (cases ?R) auto
      with False show ?thesis by (simp add: matchMarker_def split: list.splits)
    next
      case c2: True
      define ds where "ds = takeWhile isDigit cs2"
      define r2 where "r2 = dropWhile isDigit cs2"
      have cs2: "cs2 = ds @ r2" by (simp add: ds_def r2_def)
      have dig: "\<forall>d \<in> set ds. isDigit d" by (auto simp: ds_def dest: set_takeWhileD)
      have r2: "r2 = [] \<or> \<not> isDigit (hd r2)"
        unfolding r2_def by (metis hd_dropWhile)
      let ?R3 = "render (map (renameToken m) (tokens r2))"
      have "tokens cs = Chr 94 # tokens cs2"
        unfolding Cons c2 by (simp add: matchRef_other matchDefHead_other)
      also have "tokens cs2 = map Chr ds @ tokens r2"
        unfolding cs2 using dig by (intro tokens_skip digits_no_bracket)
      finally have R: "?R = 94 # ds @ ?R3" by (simp add: render_Chr)
      from take1_cases [OF take1_render [of m r2]]
      have h: "(?R3 = [] \<and> r2 = []) \<or> (?R3 \<noteq> [] \<and> r2 \<noteq> [] \<and> hd ?R3 = hd r2)" .
      with r2 have R3: "?R3 = [] \<or> \<not> isDigit (hd ?R3)" by auto
      from assms c Cons c2 have orig: "ds = [] \<or> r2 = [] \<or> hd r2 \<noteq> 93"
        by (auto simp: matchMarker_def ds_def r2_def split: list.splits if_splits)
      from takeWhile_digits [OF dig R3]
      have tw: "takeWhile isDigit (ds @ ?R3) = ds" "dropWhile isDigit (ds @ ?R3) = ?R3" .
      from orig h have "ds = [] \<or> ?R3 = [] \<or> hd ?R3 \<noteq> 93" by auto
      then have "matchMarker (91 # 94 # ds @ ?R3) = None"
        unfolding matchMarker_open tw by auto
      with c R show ?thesis by simp
    qed
  qed
qed

lemma tokens_render_stable:
  assumes "\<forall>ds v. m ds = Some v \<longrightarrow> digitsOnly v"
  shows "tokens (render (map (renameToken m) (tokens s))) = map (renameToken m) (tokens s)"
proof (induction s rule: tokens_induct)
  case Nil
  then show ?case by simp
next
  case (Def c cs ds rest)
  let ?v = "case m ds of Some new \<Rightarrow> new | None \<Rightarrow> ds"
  let ?R = "render (map (renameToken m) (tokens rest))"
  from matchDefHead_Some(2,3) [OF Def(1)] assms have v: "digitsOnly ?v"
    by (auto simp: digitsOnly_def split: option.splits)
  have "matchDefHead (91 # 94 # ?v @ 93 # 58 # ?R) = Some (?v, ?R)"
    by (simp add: matchDefHead_def matchMarker_built [OF v])
  then have "tokens (91 # 94 # ?v @ 93 # 58 # ?R) = Marker DefKind ?v # tokens ?R"
    by (rule tokens_Def)
  with Def show ?case by (simp add: js_def)
next
  case (Ref c cs ds rest)
  let ?v = "case m ds of Some new \<Rightarrow> new | None \<Rightarrow> ds"
  let ?R = "render (map (renameToken m) (tokens rest))"
  from matchRef_Some(2,3) [OF Ref(2)] assms have v: "digitsOnly ?v"
    by (auto simp: digitsOnly_def split: option.splits)
  from take1_cases [OF take1_render [of m rest]] matchRef_Some(4) [OF Ref(2)]
  have "?R = [] \<or> hd ?R \<noteq> 58" by auto
  then have "matchDefHead (91 # 94 # ?v @ 93 # ?R) = None"
    and "matchRef (91 # 94 # ?v @ 93 # ?R) = Some (?v, ?R)"
    by (cases ?R; simp add: matchDefHead_def matchRef_def matchMarker_built [OF v])+
  then have "tokens (91 # 94 # ?v @ 93 # ?R) = Marker RefKind ?v # tokens ?R"
    by (rule tokens_Ref)
  with Ref show ?case by (simp add: js_def)
next
  case (Chr c cs)
  let ?R = "render (map (renameToken m) (tokens cs))"
  from matchers_None [OF Chr(1,2)] have "matchMarker (c # ?R) = None"
    by (rule matchMarker_None_render)
  then have "matchDefHead (c # ?R) = None" "matchRef (c # ?R) = None"
    by (simp_all add: matchDefHead_def matchRef_def)
  then have "tokens (c # ?R) = Chr c # tokens ?R" by (rule tokens_Chr)
  with Chr show ?case by simp
qed

text \<open>The number that a string of digits denotes.\<close>

definition decimalValue :: "jsstring \<Rightarrow> nat" where
  "decimalValue s = foldl (\<lambda>a d. 10 * a + (d - 48)) 0 s"

lemma decimalValue_decimal: "decimalValue (decimal n) = n"
proof (induction n rule: decimal.induct)
  case (1 n)
  show ?case
  proof (cases "n < 10")
    case True
    then show ?thesis by (subst decimal.simps) (simp add: decimalValue_def)
  next
    case False
    have "decimalValue (decimal n) = decimalValue (decimal (n div 10) @ [48 + n mod 10])"
      using False by (subst decimal.simps) simp
    also have "\<dots> = 10 * decimalValue (decimal (n div 10)) + n mod 10"
      by (simp add: decimalValue_def)
    finally show ?thesis using "1.IH" [OF False] by simp
  qed
qed

lemma decimal_inject: "decimal a = decimal b \<Longrightarrow> a = b"
  by (metis decimalValue_decimal)

lemma decimal_digits: "\<forall>d \<in> set (decimal n). isDigit d"
proof (induction n rule: decimal.induct)
  case (1 n)
  show ?case
  proof (cases "n < 10")
    case True
    then show ?thesis by (subst decimal.simps) (simp add: isDigit_def)
  next
    case False
    have "n mod 10 < 10" by simp
    then have "isDigit (48 + n mod 10)" unfolding isDigit_def by linarith
    with "1.IH" [OF False] False show ?thesis by (subst decimal.simps) simp
  qed
qed

lemma digitsOnly_decimal: "digitsOnly (decimal n)"
  by (simp add: digitsOnly_def decimal_nonempty decimal_digits)

lemma newIds_digitsOnly: "newIds xs n a = Some v \<Longrightarrow> digitsOnly v"
  by (induction xs n a rule: newIds.induct) (auto simp: digitsOnly_decimal split: if_splits)

lemma assigned_sequence:
  "distinct order \<Longrightarrow> start + length order \<le> 9007199254740992 \<Longrightarrow>
   map (newIds order start) order = map (\<lambda>n. Some (decimal n)) [start ..< start + length order]"
  by (rule nth_equalityI) (simp_all add: newIds_nth)

lemma distinct_decimals: "distinct (map decimal [a ..< b])"
  by (simp add: distinct_map inj_on_def) (metis decimal_inject)

text \<open>The identifier that a token carries after renaming.\<close>

definition newName :: "(jsstring \<Rightarrow> jsstring option) \<Rightarrow> jsstring \<Rightarrow> jsstring" where
  "newName m ds = (case m ds of Some new \<Rightarrow> new | None \<Rightarrow> ds)"

lemma identifiers_rename: "identifiers (map (renameToken m) ts) = map (newName m) (identifiers ts)"
  by (induction ts rule: identifiers.induct) (simp_all add: newName_def)

lemma firstOccurrences_map:
  "inj_on f (set xs) \<Longrightarrow> firstOccurrences (map f xs) = map f (firstOccurrences xs)"
proof (induction xs rule: firstOccurrences.induct)
  case 1
  then show ?case by simp
next
  case (2 x xs)
  from "2.prems" have "filter (\<lambda>y. y \<noteq> f x) (map f xs) = map f (filter (\<lambda>y. y \<noteq> x) xs)"
    by (auto simp: filter_map comp_def inj_on_def intro!: arg_cong [where f = "map f"] filter_cong)
  moreover from "2.prems" have "inj_on f (set (filter (\<lambda>y. y \<noteq> x) xs))"
    by (auto simp: inj_on_def)
  ultimately show ?case using "2.IH" by simp
qed

lemma newIds_map:
  "inj_on f (insert a (set xs)) \<Longrightarrow> newIds (map f xs) n (f a) = newIds xs n a"
proof (induction xs arbitrary: n)
  case Nil
  then show ?case by simp
next
  case (Cons x xs)
  from Cons.prems have "f a = f x \<longleftrightarrow> a = x" by (auto simp: inj_on_def)
  moreover from Cons.prems have "inj_on f (insert a (set xs))" by (auto simp: inj_on_def)
  ultimately show ?case using Cons.IH by simp
qed

lemma newName_inj:
  assumes "distinct order" and "start + length order \<le> 9007199254740992"
  shows "inj_on (newName (newIds order start)) (set order)"
proof (rule inj_onI)
  fix x y assume "x \<in> set order" "y \<in> set order"
    and eq: "newName (newIds order start) x = newName (newIds order start) y"
  then obtain i j where i: "i < length order" "x = order ! i" and j: "j < length order" "y = order ! j"
    by (metis in_set_conv_nth)
  from eq i j assms have "decimal (start + i) = decimal (start + j)"
    by (simp add: newName_def newIds_nth)
  then have "i = j" by (auto dest: decimal_inject)
  with i j show "x = y" by simp
qed

lemma identifiers_member: "t \<in> set ts \<Longrightarrow> set (identifiers [t]) \<subseteq> set (identifiers ts)"
  by (induction ts rule: identifiers.induct) auto

lemma renumber_again:
  assumes "start + length (firstOccurrences (identifiers (tokens text))) \<le> 9007199254740992"
  shows "normalizeFootnotesSafe (fst (normalizeFootnotesSafe text start)) start'
     = normalizeFootnotesSafe text start'"
proof -
  let ?ts = "tokens text"
  let ?order = "firstOccurrences (identifiers ?ts)"
  let ?m = "newIds ?order start"
  let ?f = "newName ?m"
  let ?text1 = "render (map (renameToken ?m) ?ts)"
  have d: "distinct ?order" by (rule distinct_firstOccurrences)
  have so: "set ?order = set (identifiers ?ts)" by (rule set_firstOccurrences)
  have inj: "inj_on ?f (set (identifiers ?ts))" using newName_inj [OF d assms] so by simp
  have t1: "tokens ?text1 = map (renameToken ?m) ?ts"
    by (rule tokens_render_stable) (auto dest: newIds_digitsOnly)
  have o1: "firstOccurrences (identifiers (tokens ?text1)) = map ?f ?order"
    unfolding t1 identifiers_rename by (rule firstOccurrences_map [OF inj])
  have ren: "renameToken (newIds (map ?f ?order) start') (renameToken ?m t) = renameToken (newIds ?order start') t"
    if "set (identifiers [t]) \<subseteq> set ?order" for t
  proof (cases t)
    case (Chr c)
    then show ?thesis by simp
  next
    case (Marker k ds)
    with that have ds: "ds \<in> set ?order" by simp
    then have "inj_on ?f (insert ds (set ?order))" using inj so by (simp add: insert_absorb)
    from newIds_map [OF this] have "newIds (map ?f ?order) start' (?f ds) = newIds ?order start' ds" .
    moreover from ds have "newIds ?order start' ds \<noteq> None" by (simp add: newIds_None)
    ultimately show ?thesis using Marker by (auto simp: newName_def)
  qed
  have mm: "map (renameToken (newIds (map ?f ?order) start')) (map (renameToken ?m) ?ts)
      = map (renameToken (newIds ?order start')) ?ts"
  proof -
    have "\<forall>t \<in> set ?ts. set (identifiers [t]) \<subseteq> set ?order"
      unfolding so by (auto dest: identifiers_member)
    with ren show ?thesis by simp
  qed
  have "fst (normalizeFootnotesSafe text start) = ?text1"
    by (simp only: normalizeFootnotesSafe_tokens renumbered_def fst_conv)
  then have "normalizeFootnotesSafe (fst (normalizeFootnotesSafe text start)) start'
      = normalizeFootnotesSafe ?text1 start'" by (rule arg_cong)
  also have "\<dots> = (render (map (renameToken (newIds (firstOccurrences (identifiers (tokens ?text1))) start'))
        (tokens ?text1)), (jsIncrement ^^ length (firstOccurrences (identifiers (tokens ?text1)))) start')"
    by (simp only: normalizeFootnotesSafe_tokens renumbered_def)
  also have "\<dots> = (render (map (renameToken (newIds (map ?f ?order) start')) (map (renameToken ?m) ?ts)),
        (jsIncrement ^^ length (map ?f ?order)) start')"
    using o1 unfolding t1 by (simp only:)
  also have "\<dots> = (render (map (renameToken (newIds ?order start')) ?ts), (jsIncrement ^^ length ?order) start')"
    by (simp only: mm length_map)
  also have "\<dots> = normalizeFootnotesSafe text start'"
    by (simp only: normalizeFootnotesSafe_tokens renumbered_def)
  finally show ?thesis .
qed

lemma decimal_small: "n < 10 \<Longrightarrow> decimal n = [48 + n]"
  by (subst decimal.simps) simp

lemmas renumber_eval = js_def matchMarker_def matchDefHead_def matchRef_def isDigit_def decimal_small
  jsIncrement_def

lemma decimal_step: "10 \<le> n \<Longrightarrow> decimal n = decimal (n div 10) @ [48 + n mod 10]"
  by (subst decimal.simps) simp

text \<open>
  C3 (as stated, refuted). The claim speaks of every starting offset. From the offset
  \<open>2^53\<close> = 9007199254740992 the counter no longer advances: in \<open>[^1][^2]\<close> the two
  identifiers both become 9007199254740992, and the returned \<open>nextId\<close> is the offset
  itself, not the offset plus two.
\<close>

theorem C3_offset_2_53_repeats:
  "normalizeFootnotesSafe (js ''[^1][^2]'') 9007199254740992
     = (js ''[^9007199254740992][^9007199254740992]'', 9007199254740992)
   \<and> (9007199254740992 :: nat) = 2 ^ 53"
proof -
  have t: "tokens (js ''[^1][^2]'') = [Marker RefKind [49], Marker RefKind [50]]"
    by (simp add: renumber_eval)
  have d: "decimal 9007199254740992 = js ''9007199254740992''"
    by (simp add: decimal_step decimal_small js_def)
  have "normalizeFootnotesSafe (js ''[^1][^2]'') 9007199254740992
     = (js ''[^9007199254740992][^9007199254740992]'', 9007199254740992)"
    unfolding normalizeFootnotesSafe_tokens renumbered_def t
    by (simp add: jsIncrement_def d) (simp add: js_def)
  then show ?thesis by simp
qed

text \<open>
  C3 (amended). For every text and every starting offset such that the offset plus the
  number of distinct identifiers of the text is at most \<open>2^53\<close>,
  \<open>normalizeFootnotesSafe(text, start)\<close> reads the text as characters, markers and definition
  heads (a reading that loses nothing), takes the identifiers in document order of their
  first occurrence, marker or definition alike, gives them the numbers \<open>start\<close>,
  \<open>start + 1\<close>, and so on, without gap or duplicate, rewrites every marker and definition
  head to the new identifier of its old one and leaves every other character alone, and
  returns as \<open>nextId\<close> the offset plus the number of distinct identifiers.
\<close>

theorem C3_renumbering:
  "(start + length (firstOccurrences (identifiers (tokens text))) \<le> 9007199254740992 \<longrightarrow>
      normalizeFootnotesSafe text start
        = (render (map (renameToken (newIds (firstOccurrences (identifiers (tokens text))) start))
                     (tokens text)),
           start + length (firstOccurrences (identifiers (tokens text))))
      \<and> map (newIds (firstOccurrences (identifiers (tokens text))) start)
            (firstOccurrences (identifiers (tokens text)))
          = map (\<lambda>n. Some (decimal n))
              [start ..< start + length (firstOccurrences (identifiers (tokens text)))])
   \<and> render (tokens text) = text
   \<and> distinct (firstOccurrences (identifiers (tokens text)))
   \<and> set (firstOccurrences (identifiers (tokens text))) = set (identifiers (tokens text))
   \<and> distinct (map decimal [start ..< start + length (firstOccurrences (identifiers (tokens text)))])"
proof -
  let ?order = "firstOccurrences (identifiers (tokens text))"
  have "normalizeFootnotesSafe text start
        = (render (map (renameToken (newIds ?order start)) (tokens text)), start + length ?order)
      \<and> map (newIds ?order start) ?order = map (\<lambda>n. Some (decimal n)) [start ..< start + length ?order]"
    if b: "start + length ?order \<le> 9007199254740992"
    using normalizeFootnotesSafe_tokens [of "text" start] jsIncrement_funpow [OF b]
      assigned_sequence [OF distinct_firstOccurrences b]
    by (simp add: renumbered_def)
  then show ?thesis
    using render_tokens [of "text"] distinct_firstOccurrences [of "identifiers (tokens text)"]
      set_firstOccurrences [of "identifiers (tokens text)"]
      distinct_decimals [of start "start + length ?order"]
    by blast
qed

theorem C3_renumbering_witness:
  "normalizeFootnotesSafe (js ''a[^7] b[^5][^7]\<newline>[^5]: x\<newline>[^7]: y'') 3
     = (js ''a[^3] b[^4][^3]\<newline>[^4]: x\<newline>[^3]: y'', 5)"
proof -
  have t: "tokens (js ''a[^7] b[^5][^7]\<newline>[^5]: x\<newline>[^7]: y'')
     = [Chr 97, Marker RefKind [55], Chr 32, Chr 98, Marker RefKind [53], Marker RefKind [55], Chr 10,
        Marker DefKind [53], Chr 32, Chr 120, Chr 10, Marker DefKind [55], Chr 32, Chr 121]"
    by (simp add: renumber_eval)
  show ?thesis
    using C3_renumbering [of 3 "js ''a[^7] b[^5][^7]\<newline>[^5]: x\<newline>[^7]: y''"]
    unfolding t by (simp add: renumber_eval)
qed

text \<open>
  C4 (as stated, refuted). Renumbering \<open>[^1]\<close> from 1 gives \<open>[^1]\<close> and the next
  identifier 2; renumbering that result from 2 gives \<open>[^2]\<close>: the text has changed.
\<close>

theorem C4_restart_at_nextId_changes:
  "normalizeFootnotesSafe (js ''[^1]'') 1 = (js ''[^1]'', 2)
   \<and> normalizeFootnotesSafe (fst (normalizeFootnotesSafe (js ''[^1]'') 1))
        (snd (normalizeFootnotesSafe (js ''[^1]'') 1)) = (js ''[^2]'', 3)
   \<and> js ''[^2]'' \<noteq> js ''[^1]''"
proof -
  have t: "tokens (js ''[^1]'') = [Marker RefKind [49]]" by (simp add: renumber_eval)
  have a: "normalizeFootnotesSafe (js ''[^1]'') 1 = (js ''[^1]'', 2)"
    unfolding normalizeFootnotesSafe_tokens renumbered_def t by (simp add: renumber_eval)
  have b: "normalizeFootnotesSafe (js ''[^1]'') 2 = (js ''[^2]'', 3)"
    unfolding normalizeFootnotesSafe_tokens renumbered_def t by (simp add: renumber_eval)
  from a b show ?thesis by (simp add: js_def)
qed

text \<open>
  C4 (amended). Renumbering is idempotent for a fixed starting offset. For every text and
  every offset \<open>start\<close> such that \<open>start\<close> plus the number of distinct identifiers of the
  text is at most \<open>2^53\<close>, renumbering the result of \<open>normalizeFootnotesSafe(text, start)\<close>
  from the same \<open>start\<close> returns the same text and the same \<open>nextId\<close>; and renumbering that
  result from any offset \<open>start'\<close> up to \<open>2^53\<close> returns what renumbering the original text
  from \<open>start'\<close> returns.
\<close>

theorem C4_renumber_again:
  "start + length (firstOccurrences (identifiers (tokens text))) \<le> 9007199254740992
     \<and> start' \<le> 9007199254740992 \<longrightarrow>
   normalizeFootnotesSafe (fst (normalizeFootnotesSafe text start)) start
     = normalizeFootnotesSafe text start
   \<and> normalizeFootnotesSafe (fst (normalizeFootnotesSafe text start)) start'
     = normalizeFootnotesSafe text start'"
  by (simp add: renumber_again)

theorem C4_renumber_again_witness:
  "normalizeFootnotesSafe (fst (normalizeFootnotesSafe (js ''a[^7] b[^5]'') 1)) 1 = (js ''a[^1] b[^2]'', 3)
   \<and> normalizeFootnotesSafe (fst (normalizeFootnotesSafe (js ''a[^7] b[^5]'') 1)) 3 = (js ''a[^3] b[^4]'', 5)"
proof -
  have t: "tokens (js ''a[^7] b[^5]'') = [Chr 97, Marker RefKind [55], Chr 32, Chr 98, Marker RefKind [53]]"
    by (simp add: renumber_eval)
  have a: "normalizeFootnotesSafe (js ''a[^7] b[^5]'') 1 = (js ''a[^1] b[^2]'', 3)"
    unfolding normalizeFootnotesSafe_tokens renumbered_def t by (simp add: renumber_eval)
  have b: "normalizeFootnotesSafe (js ''a[^7] b[^5]'') 3 = (js ''a[^3] b[^4]'', 5)"
    unfolding normalizeFootnotesSafe_tokens renumbered_def t by (simp add: renumber_eval)
  have l: "1 + length (firstOccurrences (identifiers (tokens (js ''a[^7] b[^5]'')))) \<le> 9007199254740992"
    unfolding t by simp
  show ?thesis
    using C4_renumber_again [of 1 "js ''a[^7] b[^5]''" 3] a b l by simp
qed

section \<open>\<open>ensureFootnotesAtEnd\<close>\<close>

text \<open>\<open>match.replace(/^\n/, '')\<close>: the match without its leading line feed.\<close>

definition dropLeadingNewline :: "jsstring \<Rightarrow> jsstring" where
  "dropLeadingNewline s = (case s of [] \<Rightarrow> [] | c # r \<Rightarrow> if c = 10 then r else s)"

text \<open>
  \<open>text.replace(FOOTNOTE_DEF_BLOCK_RE, callback)\<close>: the text with a line feed in place of
  every definition block, and the list \<open>footnoteBlocks\<close> that the callback fills with the
  cleaned blocks, in document order.
\<close>

function collectDefBlocks :: "jsstring \<Rightarrow> jsstring \<times> jsstring list" where
  "collectDefBlocks [] = ([], [])"
| "collectDefBlocks (c # cs) =
     (case matchDefBlock (c # cs) of
        Some (block, rest) \<Rightarrow>
          (case collectDefBlocks rest of
             (out, blocks) \<Rightarrow>
               (10 # out,
                if trimEnd (dropLeadingNewline block) \<noteq> []
                then trimEnd (dropLeadingNewline block) # blocks else blocks))
      | None \<Rightarrow> (case collectDefBlocks cs of (out, blocks) \<Rightarrow> (c # out, blocks)))"
  by pat_completeness auto
termination
  by (relation "measure length") (auto dest: matchDefBlock_Some(2))

definition ensureFootnotesAtEnd :: "jsstring \<Rightarrow> jsstring" where
  "ensureFootnotesAtEnd text =
     (case collectDefBlocks text of
        (withoutDefs, footnoteBlocks) \<Rightarrow>
          if footnoteBlocks = [] then trimEnd withoutDefs
          else trimEnd (trimEnd withoutDefs @ [10, 10] @ joinWith [10] footnoteBlocks))"

subsection \<open>Trimming\<close>

lemma trimEnd_append_spaces: "\<forall>c \<in> set ws. isSpace c \<Longrightarrow> trimEnd (u @ ws) = trimEnd u"
proof -
  assume "\<forall>c \<in> set ws. isSpace c"
  then have "dropWhile isSpace (rev ws @ rev u) = dropWhile isSpace (rev u)"
    by (intro dropWhile_append2) simp
  then show ?thesis by (simp add: trimEnd_def)
qed

lemma trimEnd_idem: "trimEnd (trimEnd s) = trimEnd s"
  by (simp add: trimEnd_def)

lemma trimEnd_split: "\<exists>ws. s = trimEnd s @ ws \<and> (\<forall>c \<in> set ws. isSpace c)"
proof -
  have "rev s = takeWhile isSpace (rev s) @ dropWhile isSpace (rev s)" by simp
  then have "s = rev (dropWhile isSpace (rev s)) @ rev (takeWhile isSpace (rev s))"
    by (metis rev_append rev_rev_ident)
  moreover have "\<forall>c \<in> set (rev (takeWhile isSpace (rev s))). isSpace c"
    by (auto dest: set_takeWhileD)
  ultimately show ?thesis unfolding trimEnd_def by blast
qed

lemma trimEnd_fixed_iff: "trimEnd s = s \<longleftrightarrow> (s = [] \<or> \<not> isSpace (last s))"
proof -
  have "trimEnd s = s \<longleftrightarrow> dropWhile isSpace (rev s) = rev s"
    unfolding trimEnd_def by (metis rev_rev_ident)
  also have "\<dots> \<longleftrightarrow> (rev s = [] \<or> \<not> isSpace (hd (rev s)))"
    by (rule dropWhile_eq_self_iff)
  finally show ?thesis by (auto simp: hd_rev)
qed

lemma trimEnd_append_fixed:
  assumes "b \<noteq> []" and "trimEnd b = b"
  shows "trimEnd (u @ b) = u @ b"
  using assms by (simp add: trimEnd_fixed_iff)

subsection \<open>Definition heads and block text\<close>

lemma matchDefHead_built:
  "digitsOnly ds \<Longrightarrow> matchDefHead (91 # 94 # ds @ 93 # 58 # t) = Some (ds, t)"
  by (simp add: matchDefHead_def matchMarker_built)

lemma matchDefHead_append:
  assumes "matchDefHead u = Some (ds, t)"
  shows "matchDefHead (u @ v) = Some (ds, t @ v)"
proof -
  from matchDefHead_Some [OF assms] have "u = 91 # 94 # ds @ 93 # 58 # t" "digitsOnly ds"
    by (simp_all add: digitsOnly_def)
  then show ?thesis using matchDefHead_built [of ds "t @ v"] by simp
qed

lemma matchMarker_boundary:
  assumes "c \<noteq> 91" "c \<noteq> 94" "c \<noteq> 93" "\<not> isDigit c"
  shows "matchMarker (u @ c # v) = map_option (\<lambda>(ds, t). (ds, t @ c # v)) (matchMarker u)"
proof (cases u)
  case Nil
  with assms show ?thesis by (simp add: matchMarker_other) (simp add: matchMarker_def)
next
  case (Cons a u1)
  show ?thesis
  proof (cases u1)
    case Nil
    with Cons assms show ?thesis by (simp add: matchMarker_def)
  next
    case (Cons b r)
    show ?thesis
    proof (cases "a = 91 \<and> b = 94")
      case False
      with Cons \<open>u = a # u1\<close> show ?thesis by (auto simp: matchMarker_def)
    next
      case True
      have tw: "takeWhile isDigit (r @ c # v) = takeWhile isDigit r"
        using assms(4) by (rule takeWhile_tail)
      have dw: "dropWhile isDigit (r @ c # v) = dropWhile isDigit r @ c # v"
        using assms(4) by (rule dropWhile_append3)
      have u: "u = 91 # 94 # r" using True Cons \<open>u = a # u1\<close> by simp
      show ?thesis
      proof (cases "dropWhile isDigit r")
        case Nil
        show ?thesis unfolding u append_Cons matchMarker_open tw dw Nil using assms by simp
      next
        case (Cons d t)
        show ?thesis unfolding u append_Cons matchMarker_open tw dw Cons by simp
      qed
    qed
  qed
qed

lemma matchDefHead_prefix_None: "matchDefHead (u @ v) = None \<Longrightarrow> matchDefHead u = None"
proof (cases "matchDefHead u")
  case None
  then show ?thesis by simp
next
  case (Some a)
  obtain ds t where "a = (ds, t)" by (cases a)
  with Some matchDefHead_append [of u ds t v] show "matchDefHead (u @ v) = None \<Longrightarrow> ?thesis" by simp
qed

lemma lineTerminator_plain:
  "isLineTerminator c \<Longrightarrow> c \<noteq> 91 \<and> c \<noteq> 94 \<and> c \<noteq> 93 \<and> c \<noteq> 58 \<and> \<not> isDigit c"
  by (auto simp: isLineTerminator_def isDigit_def)

lemma matchDefHead_boundary:
  assumes "matchDefHead u = None" and "r = [] \<or> isLineTerminator (hd r)"
  shows "matchDefHead (u @ r) = None"
proof (cases r)
  case Nil
  with assms show ?thesis by simp
next
  case (Cons c v)
  with assms have "isLineTerminator c" by simp
  note p = lineTerminator_plain [OF this]
  from p have m: "matchMarker (u @ c # v) = map_option (\<lambda>(ds, t). (ds, t @ c # v)) (matchMarker u)"
    by (intro matchMarker_boundary) simp_all
  show ?thesis
  proof (cases "matchMarker u")
    case None
    with m Cons show ?thesis by (simp add: matchDefHead_def)
  next
    case (Some a)
    obtain ds t where a: "a = (ds, t)" by (cases a)
    show ?thesis
    proof (cases t)
      case Nil
      with Some a m Cons p show ?thesis by (simp add: matchDefHead_def)
    next
      case (Cons e t')
      with Some a assms(1) have "e \<noteq> 58" by (auto simp: matchDefHead_def split: if_splits)
      with Some a m Cons \<open>r = c # v\<close> show ?thesis by (simp add: matchDefHead_def)
    qed
  qed
qed

text \<open>Text that the line part of the block expression takes whole.\<close>

definition blockText :: "jsstring \<Rightarrow> bool" where
  "blockText m = (defBlockLines m = (m, []))"

text \<open>Text at which the line part stops: the end, a line terminator other than a line feed,
  or a line feed before a definition head.\<close>

definition stopsBlock :: "jsstring \<Rightarrow> bool" where
  "stopsBlock r = (r = [] \<or> (isLineTerminator (hd r) \<and> (hd r = 10 \<longrightarrow> matchDefHead (tl r) \<noteq> None)))"

text \<open>The characters that \<open>.\<close> matches.\<close>

abbreviation notLT :: "nat \<Rightarrow> bool" where
  "notLT \<equiv> (\<lambda>c. \<not> isLineTerminator c)"

lemma defBlockLines_end: "dropWhile notLT s = [] \<Longrightarrow> defBlockLines s = (s, [])"
  by (subst defBlockLines.simps) (simp only: list.case)

lemma defBlockLines_cont:
  "dropWhile notLT s = 10 # r \<Longrightarrow> matchDefHead r = None \<Longrightarrow>
   defBlockLines s = (takeWhile notLT s @ 10 # fst (defBlockLines r), snd (defBlockLines r))"
  by (subst defBlockLines.simps) (simp only: list.case simp_thms if_True split_beta)

lemma defBlockLines_stop:
  "dropWhile notLT s = c # r \<Longrightarrow> \<not> (c = 10 \<and> matchDefHead r = None) \<Longrightarrow>
   defBlockLines s = (takeWhile notLT s, c # r)"
  by (subst defBlockLines.simps) (simp only: list.case if_False)

lemma dropWhile_notLT_hd: "dropWhile notLT s = c # r \<Longrightarrow> isLineTerminator c"
  using hd_dropWhile [of notLT s] by auto

lemma defBlockLines_rest:
  "defBlockLines s = (m, rest) \<Longrightarrow> stopsBlock rest"
proof (induction s arbitrary: m rest rule: defBlockLines.induct)
  case (1 s)
  show ?case
  proof (cases "dropWhile notLT s")
    case Nil
    from defBlockLines_end [OF Nil] "1.prems" show ?thesis by (simp add: stopsBlock_def)
  next
    case (Cons c r)
    show ?thesis
    proof (cases "c = 10 \<and> matchDefHead r = None")
      case True
      obtain m' rest' where rec: "defBlockLines r = (m', rest')" by (cases "defBlockLines r")
      from True Cons have "dropWhile notLT s = 10 # r" by simp
      from defBlockLines_cont [OF this] True "1.prems" rec have "rest = rest'" by simp
      with "1.IH" [OF Cons True rec] show ?thesis by simp
    next
      case False
      from defBlockLines_stop [OF Cons False] "1.prems" have "rest = c # r" by simp
      with False dropWhile_notLT_hd [OF Cons] show ?thesis by (auto simp: stopsBlock_def)
    qed
  qed
qed

lemma blockText_plain: "\<forall>c \<in> set l. notLT c \<Longrightarrow> blockText l"
proof -
  assume "\<forall>c \<in> set l. notLT c"
  then have "dropWhile notLT l = []" by simp
  from defBlockLines_end [OF this] show ?thesis by (simp add: blockText_def)
qed

lemma blockText_line:
  assumes "\<forall>c \<in> set l. notLT c" and "matchDefHead m = None" and "blockText m"
  shows "blockText (l @ 10 # m)"
proof -
  have "isLineTerminator 10" by (simp add: isLineTerminator_def)
  with assms(1) have "takeWhile notLT (l @ 10 # m) = l" "dropWhile notLT (l @ 10 # m) = 10 # m"
    by (simp_all add: takeWhile_append2 dropWhile_append2)
  with defBlockLines_cont [of "l @ 10 # m" m] assms(2,3) show ?thesis
    by (simp add: blockText_def)
qed

lemma blockText_cases:
  assumes "blockText m"
  shows "(\<forall>c \<in> set m. notLT c)
       \<or> (\<exists>l m'. m = l @ 10 # m' \<and> (\<forall>c \<in> set l. notLT c) \<and> matchDefHead m' = None \<and> blockText m')"
proof (cases "dropWhile notLT m")
  case Nil
  then show ?thesis by simp
next
  case (Cons c r)
  have m: "m = takeWhile notLT m @ c # r" using Cons by (metis takeWhile_dropWhile_id)
  have cont: "c = 10 \<and> matchDefHead r = None"
  proof (rule ccontr)
    assume n: "\<not> (c = 10 \<and> matchDefHead r = None)"
    from defBlockLines_stop [OF Cons n] assms show False by (simp add: blockText_def)
  qed
  then have "dropWhile notLT m = 10 # r" using Cons by simp
  from defBlockLines_cont [OF this] cont assms
  have e: "takeWhile notLT m @ 10 # fst (defBlockLines r) = m" "snd (defBlockLines r) = []"
    by (simp_all add: blockText_def)
  from e(1) m cont have "fst (defBlockLines r) = r" by (metis append_eq_append_conv list.inject)
  with e(2) have "blockText r" unfolding blockText_def by (metis prod.collapse)
  moreover have "\<forall>c \<in> set (takeWhile notLT m). notLT c" by (auto dest: set_takeWhileD)
  ultimately show ?thesis using m cont by blast
qed

lemma defBlockLines_blockText: "defBlockLines s = (m, rest) \<Longrightarrow> blockText m"
proof (induction s arbitrary: m rest rule: defBlockLines.induct)
  case (1 s)
  have plain: "\<forall>c \<in> set (takeWhile notLT s). notLT c" by (auto dest: set_takeWhileD)
  show ?case
  proof (cases "dropWhile notLT s")
    case Nil
    from defBlockLines_end [OF Nil] "1.prems" show ?thesis by (simp add: blockText_def)
  next
    case (Cons c r)
    show ?thesis
    proof (cases "c = 10 \<and> matchDefHead r = None")
      case True
      obtain m' rest' where rec: "defBlockLines r = (m', rest')" by (cases "defBlockLines r")
      from True Cons have "dropWhile notLT s = 10 # r" by simp
      from defBlockLines_cont [OF this] True "1.prems" rec have m: "m = takeWhile notLT s @ 10 # m'"
        by simp
      from "1.IH" [OF Cons True rec] have b: "blockText m'" .
      from defBlockLines_append [OF rec] have "r = m' @ rest'" .
      with True have "matchDefHead m' = None"
        by (auto dest: matchDefHead_prefix_None)
      with plain b show ?thesis unfolding m by (intro blockText_line)
    next
      case False
      from defBlockLines_stop [OF Cons False] "1.prems" have "m = takeWhile notLT s" by simp
      with plain show ?thesis by (simp add: blockText_plain)
    qed
  qed
qed

subsection \<open>Collecting the blocks\<close>

lemma blockText_prefix: "blockText (p @ q) \<Longrightarrow> blockText p"
proof (induction "length p" arbitrary: p q rule: less_induct)
  case less
  from blockText_cases [OF less.prems]
  show ?case
  proof
    assume "\<forall>c \<in> set (p @ q). notLT c"
    then show ?thesis by (intro blockText_plain) simp
  next
    assume "\<exists>l m'. p @ q = l @ 10 # m' \<and> (\<forall>c \<in> set l. notLT c) \<and> matchDefHead m' = None \<and> blockText m'"
    then obtain l m' where eq: "p @ q = l @ 10 # m'" and l: "\<forall>c \<in> set l. notLT c"
      and h: "matchDefHead m' = None" and b: "blockText m'" by blast
    from eq obtain us where "(p = l @ us \<and> us @ q = 10 # m') \<or> (p @ us = l \<and> q = us @ 10 # m')"
      by (auto simp: append_eq_append_conv2)
    then show ?thesis
    proof
      assume a: "p = l @ us \<and> us @ q = 10 # m'"
      show ?thesis
      proof (cases us)
        case Nil
        with a l show ?thesis by (simp add: blockText_plain)
      next
        case (Cons u us')
        with a have u: "u = 10" and m': "m' = us' @ q" and p: "p = l @ 10 # us'" by simp_all
        from p have "length us' < length p" by simp
        from less.hyps [OF this] b m' have "blockText us'" by simp
        moreover from h m' have "matchDefHead us' = None" by (auto dest: matchDefHead_prefix_None)
        ultimately show ?thesis unfolding p using l by (intro blockText_line)
      qed
    next
      assume "p @ us = l \<and> q = us @ 10 # m'"
      with l have "\<forall>c \<in> set p. notLT c" by auto
      then show ?thesis by (rule blockText_plain)
    qed
  qed
qed

lemma stopsBlock_hd: "stopsBlock r \<Longrightarrow> r = [] \<or> isLineTerminator (hd r)"
  by (auto simp: stopsBlock_def)

lemma defBlockLines_blockText_append:
  "blockText m \<Longrightarrow> stopsBlock r \<Longrightarrow> defBlockLines (m @ r) = (m, r)"
proof (induction "length m" arbitrary: m rule: less_induct)
  case less
  from blockText_cases [OF less.prems(1)]
  show ?case
  proof
    assume plain: "\<forall>c \<in> set m. notLT c"
    show ?thesis
    proof (cases r)
      case Nil
      with less.prems(1) show ?thesis by (simp add: blockText_def)
    next
      case (Cons c v)
      with less.prems(2) have lt: "isLineTerminator c" and st: "\<not> (c = 10 \<and> matchDefHead v = None)"
        by (auto simp: stopsBlock_def)
      from plain lt have "takeWhile notLT (m @ c # v) = m" "dropWhile notLT (m @ c # v) = c # v"
        by (simp_all add: takeWhile_append2 dropWhile_append2)
      with defBlockLines_stop [of "m @ c # v" c v] st Cons show ?thesis by simp
    qed
  next
    assume "\<exists>l m'. m = l @ 10 # m' \<and> (\<forall>c \<in> set l. notLT c) \<and> matchDefHead m' = None \<and> blockText m'"
    then obtain l m' where m: "m = l @ 10 # m'" and l: "\<forall>c \<in> set l. notLT c"
      and h: "matchDefHead m' = None" and b: "blockText m'" by blast
    have "isLineTerminator 10" by (simp add: isLineTerminator_def)
    with l have tw: "takeWhile notLT (m @ r) = l" and dw: "dropWhile notLT (m @ r) = 10 # (m' @ r)"
      unfolding m by (simp_all add: takeWhile_append2 dropWhile_append2)
    from h stopsBlock_hd [OF less.prems(2)] have h': "matchDefHead (m' @ r) = None"
      by (rule matchDefHead_boundary)
    from m have "length m' < length m" by simp
    from less.hyps [OF this b less.prems(2)] have "defBlockLines (m' @ r) = (m', r)" .
    with defBlockLines_cont [OF dw h'] tw m show ?thesis by simp
  qed
qed

text \<open>No definition block starts anywhere in the text.\<close>

fun noDefStart :: "jsstring \<Rightarrow> bool" where
  "noDefStart [] = True"
| "noDefStart (c # cs) = (matchDefBlock (c # cs) = None \<and> noDefStart cs)"

lemma matchDefBlock_None_iff:
  "matchDefBlock (c # cs) = None \<longleftrightarrow> (c = 10 \<longrightarrow> matchDefHead cs = None)"
  by (auto simp: matchDefBlock_def split: option.splits prod.splits)

lemma collect_None:
  "matchDefBlock (c # cs) = None \<Longrightarrow>
   collectDefBlocks (c # cs) = (c # fst (collectDefBlocks cs), snd (collectDefBlocks cs))"
  by (simp add: split_beta)

lemma collect_Some:
  "matchDefBlock (c # cs) = Some (block, rest) \<Longrightarrow>
   collectDefBlocks (c # cs)
     = (10 # fst (collectDefBlocks rest),
        (if trimEnd (dropLeadingNewline block) \<noteq> [] then [trimEnd (dropLeadingNewline block)] else [])
          @ snd (collectDefBlocks rest))"
  by (simp add: split_beta)

declare collectDefBlocks.simps(2) [simp del]

lemma matchDefBlock_prefix_None:
  assumes "matchDefBlock (c # p @ q) = None"
  shows "matchDefBlock (c # p) = None"
proof (cases "c = 10")
  case False
  then show ?thesis by (simp add: matchDefBlock_None_iff)
next
  case True
  with assms have "matchDefHead (p @ q) = None" by (simp add: matchDefBlock_None_iff)
  then have "matchDefHead p = None" by (rule matchDefHead_prefix_None)
  then show ?thesis by (simp add: matchDefBlock_None_iff)
qed

lemma matchDefBlock_boundary:
  assumes "matchDefBlock (c # p) = None" and "r = [] \<or> isLineTerminator (hd r)"
  shows "matchDefBlock (c # p @ r) = None"
proof (cases "c = 10")
  case False
  then show ?thesis by (simp add: matchDefBlock_None_iff)
next
  case True
  with assms(1) have "matchDefHead p = None" by (simp add: matchDefBlock_None_iff)
  from matchDefHead_boundary [OF this assms(2)] show ?thesis by (simp add: matchDefBlock_None_iff)
qed

lemma collect_no_start: "noDefStart s \<Longrightarrow> collectDefBlocks s = (s, [])"
  by (induction s) (simp_all add: collect_None)

lemma collect_plain_prefix:
  "10 \<notin> set p \<Longrightarrow> collectDefBlocks (p @ r) = (p @ fst (collectDefBlocks r), snd (collectDefBlocks r))"
proof (induction p)
  case Nil
  then show ?case by simp
next
  case (Cons c p)
  then have "matchDefBlock (c # p @ r) = None" by (simp add: matchDefBlock_None_iff)
  from collect_None [OF this] Cons show ?case by simp
qed

lemma collect_first:
  "hd (fst (collectDefBlocks (10 # r))) = 10 \<and> fst (collectDefBlocks (10 # r)) \<noteq> []"
proof (cases "matchDefBlock (10 # r)")
  case None
  from collect_None [OF this] show ?thesis by simp
next
  case (Some a)
  obtain block rest where "a = (block, rest)" by (cases a)
  with Some collect_Some [of 10 r block rest] show ?thesis by simp
qed

lemma collect_head:
  "matchDefHead (fst (collectDefBlocks cs)) = None \<longleftrightarrow> matchDefHead cs = None"
proof -
  define p where "p = takeWhile (\<lambda>c. c \<noteq> 10) cs"
  define r where "r = dropWhile (\<lambda>c. c \<noteq> 10) cs"
  have cs: "cs = p @ r" by (simp add: p_def r_def)
  have p: "10 \<notin> set p" by (auto simp: p_def dest: set_takeWhileD)
  have r: "r = [] \<or> hd r = 10" unfolding r_def using hd_dropWhile [of "\<lambda>c. c \<noteq> 10" cs] by auto
  let ?W = "fst (collectDefBlocks r)"
  have W: "?W = [] \<or> hd ?W = 10"
  proof (cases r)
    case Nil
    then show ?thesis by simp
  next
    case (Cons c r')
    with r have "r = 10 # r'" by simp
    with collect_first [of r'] show ?thesis by simp
  qed
  have lt: "isLineTerminator 10" by (simp add: isLineTerminator_def)
  from r lt have r': "r = [] \<or> isLineTerminator (hd r)" by auto
  from W lt have W': "?W = [] \<or> isLineTerminator (hd ?W)" by auto
  have a: "matchDefHead (p @ r) = None \<longleftrightarrow> matchDefHead p = None"
  proof
    show "matchDefHead (p @ r) = None \<Longrightarrow> matchDefHead p = None" by (rule matchDefHead_prefix_None)
    show "matchDefHead p = None \<Longrightarrow> matchDefHead (p @ r) = None" by (rule matchDefHead_boundary [OF _ r'])
  qed
  have b: "matchDefHead (p @ ?W) = None \<longleftrightarrow> matchDefHead p = None"
  proof
    show "matchDefHead (p @ ?W) = None \<Longrightarrow> matchDefHead p = None" by (rule matchDefHead_prefix_None)
    show "matchDefHead p = None \<Longrightarrow> matchDefHead (p @ ?W) = None" by (rule matchDefHead_boundary [OF _ W'])
  qed
  from a b show ?thesis unfolding cs collect_plain_prefix [OF p] by simp
qed

lemma collect_output_no_start: "noDefStart (fst (collectDefBlocks s))"
proof (induction s rule: collectDefBlocks.induct)
  case 1
  then show ?case by simp
next
  case (2 c cs)
  show ?case
  proof (cases "matchDefBlock (c # cs)")
    case None
    from "2.IH"(1) [OF None] have ih: "noDefStart (fst (collectDefBlocks cs))" .
    from None have "c = 10 \<longrightarrow> matchDefHead cs = None" by (simp add: matchDefBlock_None_iff)
    then have "matchDefBlock (c # fst (collectDefBlocks cs)) = None"
      by (simp add: matchDefBlock_None_iff collect_head)
    with ih collect_None [OF None] show ?thesis by simp
  next
    case (Some a)
    obtain block rest where a: "a = (block, rest)" by (cases a)
    from "2.IH"(2) [OF Some a [symmetric]] have ih: "noDefStart (fst (collectDefBlocks rest))" .
    from Some a obtain ds t m where "defBlockLines t = (m, rest)"
      by (auto simp: matchDefBlock_def split: if_splits option.splits prod.splits)
    from stopsBlock_hd [OF defBlockLines_rest [OF this]] have "rest = [] \<or> isLineTerminator (hd rest)" .
    then have "matchDefHead rest = None"
    proof
      assume "rest = []"
      then show ?thesis by (simp add: matchDefHead_def matchMarker_def)
    next
      assume lt: "isLineTerminator (hd rest)"
      show ?thesis
      proof (cases rest)
        case Nil
        then show ?thesis by (simp add: matchDefHead_def matchMarker_def)
      next
        case (Cons e rest')
        with lt lineTerminator_plain [of e] show ?thesis by (simp add: matchDefHead_other)
      qed
    qed
    then have "matchDefBlock (10 # fst (collectDefBlocks rest)) = None"
      by (simp add: matchDefBlock_None_iff collect_head)
    with ih Some a collect_Some [of c cs block rest] show ?thesis by simp
  qed
qed

lemma noDefStart_prefix: "noDefStart (p @ q) \<Longrightarrow> noDefStart p"
proof (induction p)
  case Nil
  then show ?case by simp
next
  case (Cons c p)
  then have "matchDefBlock (c # p @ q) = None" "noDefStart p" by simp_all
  with matchDefBlock_prefix_None [of c p q] show ?case by simp
qed

lemma collect_after_body:
  assumes "noDefStart body" and "matchDefHead X = None"
  shows "collectDefBlocks (body @ 10 # X) = (body @ 10 # fst (collectDefBlocks X), snd (collectDefBlocks X))"
  using assms(1)
proof (induction body)
  case Nil
  from assms(2) have "matchDefBlock (10 # X) = None" by (simp add: matchDefBlock_None_iff)
  from collect_None [OF this] show ?case by simp
next
  case (Cons c body)
  then have n: "matchDefBlock (c # body) = None" and b: "noDefStart body" by simp_all
  have "isLineTerminator (hd (10 # X))" by (simp add: isLineTerminator_def)
  with matchDefBlock_boundary [OF n, of "10 # X"] have "matchDefBlock (c # body @ 10 # X) = None"
    by simp
  from collect_None [OF this] Cons.IH [OF b] show ?case by simp
qed

text \<open>A cleaned definition block: a head, then block text, with no white space at the end.\<close>

definition goodBlock :: "jsstring \<Rightarrow> bool" where
  "goodBlock b = (\<exists>ds m. digitsOnly ds \<and> b = 91 # 94 # ds @ 93 # 58 # m \<and> blockText m
     \<and> (m = [] \<or> \<not> isSpace (last m)))"

lemma goodBlock_fixed:
  assumes "goodBlock b"
  shows "b \<noteq> [] \<and> trimEnd b = b"
proof -
  from assms obtain ds m where b: "b = 91 # 94 # ds @ 93 # 58 # m"
    and m: "m = [] \<or> \<not> isSpace (last m)" by (auto simp: goodBlock_def)
  have "\<not> isSpace 58" by (simp add: isSpace_def)
  with m have "\<not> isSpace (last b)" unfolding b by (cases "m = []") simp_all
  then show ?thesis by (simp add: trimEnd_fixed_iff b)
qed

lemma goodBlock_head: "goodBlock b \<Longrightarrow> matchDefHead (b @ r) \<noteq> None"
  by (auto simp: goodBlock_def matchDefHead_built)

lemma trimEnd_head:
  assumes "h \<noteq> []" and "\<not> isSpace (last h)"
  shows "trimEnd (h @ m) = h @ trimEnd m"
proof -
  obtain ws where m: "m = trimEnd m @ ws" and ws: "\<forall>c \<in> set ws. isSpace c"
    using trimEnd_split by blast
  have "trimEnd (h @ m) = trimEnd ((h @ trimEnd m) @ ws)" using m by (metis append.assoc)
  also have "\<dots> = trimEnd (h @ trimEnd m)" using ws by (rule trimEnd_append_spaces)
  also have "\<dots> = h @ trimEnd m"
  proof (cases "trimEnd m = []")
    case True
    with assms show ?thesis by (simp add: trimEnd_fixed_iff)
  next
    case False
    moreover have "trimEnd (trimEnd m) = trimEnd m" by (rule trimEnd_idem)
    ultimately show ?thesis by (simp add: trimEnd_append_fixed)
  qed
  finally show ?thesis .
qed

lemma matchDefBlock_shape:
  assumes "matchDefBlock s = Some (block, rest)"
  shows "\<exists>ds m. digitsOnly ds \<and> block = 10 # 91 # 94 # ds @ 93 # 58 # m \<and> blockText m"
proof -
  from assms obtain r ds t m where h: "matchDefHead r = Some (ds, t)"
    and l: "defBlockLines t = (m, rest)" and b: "block = 10 # 91 # 94 # ds @ 93 # 58 # m"
    by (auto simp: matchDefBlock_def split: list.splits if_splits option.splits prod.splits)
  from matchDefHead_Some(2,3) [OF h] have "digitsOnly ds" by (simp add: digitsOnly_def)
  with defBlockLines_blockText [OF l] b show ?thesis by blast
qed

lemma cleaned_good:
  assumes "matchDefBlock s = Some (block, rest)"
  shows "goodBlock (trimEnd (dropLeadingNewline block))"
proof -
  from matchDefBlock_shape [OF assms] obtain ds m where ds: "digitsOnly ds"
    and b: "block = 10 # 91 # 94 # ds @ 93 # 58 # m" and m: "blockText m" by blast
  have "trimEnd (dropLeadingNewline block) = trimEnd ((91 # 94 # ds @ [93, 58]) @ m)"
    by (simp add: b dropLeadingNewline_def)
  also have "\<dots> = (91 # 94 # ds @ [93, 58]) @ trimEnd m"
    by (rule trimEnd_head) (simp_all add: isSpace_def)
  finally have c: "trimEnd (dropLeadingNewline block) = 91 # 94 # ds @ 93 # 58 # trimEnd m" by simp
  obtain ws where "m = trimEnd m @ ws" using trimEnd_split by blast
  with m have "blockText (trimEnd m)" by (metis blockText_prefix)
  moreover have "trimEnd m = [] \<or> \<not> isSpace (last (trimEnd m))"
    using trimEnd_idem [of m] by (simp add: trimEnd_fixed_iff)
  ultimately show ?thesis unfolding c goodBlock_def using ds by blast
qed

lemma collected_good: "\<forall>b \<in> set (snd (collectDefBlocks s)). goodBlock b"
proof (induction s rule: collectDefBlocks.induct)
  case 1
  then show ?case by simp
next
  case (2 c cs)
  show ?case
  proof (cases "matchDefBlock (c # cs)")
    case None
    from "2.IH"(1) [OF None] collect_None [OF None] show ?thesis by simp
  next
    case (Some a)
    obtain block rest where a: "a = (block, rest)" by (cases a)
    from Some a have s: "matchDefBlock (c # cs) = Some (block, rest)" by simp
    from "2.IH"(2) [OF Some a [symmetric]] cleaned_good [OF s] collect_Some [OF s]
    show ?thesis by auto
  qed
qed

text \<open>The blocks, each after a line feed.\<close>

definition blockLines :: "jsstring list \<Rightarrow> jsstring" where
  "blockLines bs = concat (map ((#) 10) bs)"

lemma blockLines_join: "bs \<noteq> [] \<Longrightarrow> 10 # joinWith [10] bs = blockLines bs"
  by (induction "[10 :: nat]" bs rule: joinWith.induct) (simp_all add: blockLines_def)

lemma blockLines_stops: "\<forall>b \<in> set bs. goodBlock b \<Longrightarrow> stopsBlock (blockLines bs)"
proof (cases bs)
  case Nil
  then show ?thesis by (simp add: blockLines_def stopsBlock_def)
next
  case (Cons b bs')
  assume "\<forall>b \<in> set bs. goodBlock b"
  with Cons have "goodBlock b" by simp
  from goodBlock_head [OF this] Cons show ?thesis
    by (simp add: blockLines_def stopsBlock_def isLineTerminator_def)
qed

lemma collect_blockLines:
  "\<forall>b \<in> set bs. goodBlock b \<Longrightarrow> collectDefBlocks (blockLines bs) = (replicate (length bs) 10, bs)"
proof (induction bs)
  case Nil
  then show ?case by (simp add: blockLines_def)
next
  case (Cons b bs)
  then have g: "goodBlock b" and gs: "\<forall>b \<in> set bs. goodBlock b" by simp_all
  from g obtain ds m where ds: "digitsOnly ds" and b: "b = 91 # 94 # ds @ 93 # 58 # m"
    and m: "blockText m" by (auto simp: goodBlock_def)
  let ?X = "blockLines bs"
  have "defBlockLines (m @ ?X) = (m, ?X)"
    using m blockLines_stops [OF gs] by (rule defBlockLines_blockText_append)
  moreover have "matchDefHead (b @ ?X) = Some (ds, m @ ?X)"
    unfolding b using matchDefHead_built [OF ds, of "m @ ?X"] by simp
  ultimately have "matchDefBlock (10 # b @ ?X) = Some (10 # b, ?X)"
    by (simp add: matchDefBlock_def b)
  from collect_Some [OF this] Cons.IH [OF gs] goodBlock_fixed [OF g]
  have "collectDefBlocks (10 # b @ ?X) = (10 # replicate (length bs) 10, b # bs)"
    by (simp add: dropLeadingNewline_def)
  then show ?case by (simp add: blockLines_def)
qed

lemma blockLines_fixed:
  assumes "bs \<noteq> []" and "\<forall>b \<in> set bs. goodBlock b"
  shows "trimEnd (u @ blockLines bs) = u @ blockLines bs"
proof -
  from assms(1) obtain bs' b where bs: "bs = bs' @ [b]" by (metis rev_exhaust)
  with assms(2) have "goodBlock b" by simp
  from goodBlock_fixed [OF this] have "trimEnd ((u @ blockLines bs' @ [10]) @ b) = (u @ blockLines bs' @ [10]) @ b"
    by (intro trimEnd_append_fixed) simp_all
  then show ?thesis by (simp add: bs blockLines_def)
qed

lemma ensure_with_blocks:
  assumes "collectDefBlocks s = (w, bs)" and "bs \<noteq> []"
  shows "ensureFootnotesAtEnd s = trimEnd w @ 10 # blockLines bs"
proof -
  from collected_good [of s] assms(1) have g: "\<forall>b \<in> set bs. goodBlock b" by simp
  have "trimEnd w @ [10, 10] @ joinWith [10] bs = (trimEnd w @ [10]) @ blockLines bs"
    using blockLines_join [OF assms(2)] by simp
  moreover have "trimEnd ((trimEnd w @ [10]) @ blockLines bs) = (trimEnd w @ [10]) @ blockLines bs"
    using assms(2) g by (rule blockLines_fixed)
  ultimately show ?thesis using assms by (simp add: ensureFootnotesAtEnd_def)
qed

text \<open>
  C10. \<open>ensureFootnotesAtEnd\<close> is idempotent: for every text, applying it to its own
  result changes nothing, so the second application at combination time leaves a
  sanitized chunk as it is.
\<close>

theorem C10_ensureFootnotesAtEnd_idempotent: "ensureFootnotesAtEnd (ensureFootnotesAtEnd text) = ensureFootnotesAtEnd text"
proof -
  obtain w bs where c: "collectDefBlocks text = (w, bs)" by (cases "collectDefBlocks text")
  from collect_output_no_start [of "text"] c have "noDefStart w" by simp
  moreover obtain ws where w: "w = trimEnd w @ ws" and ws: "\<forall>c \<in> set ws. isSpace c"
    using trimEnd_split by blast
  ultimately have body: "noDefStart (trimEnd w)" by (metis noDefStart_prefix)
  show ?thesis
  proof (cases "bs = []")
    case True
    with c have e: "ensureFootnotesAtEnd text = trimEnd w" by (simp add: ensureFootnotesAtEnd_def)
    from collect_no_start [OF body] show ?thesis
      unfolding e by (simp add: ensureFootnotesAtEnd_def trimEnd_idem)
  next
    case False
    from collected_good [of "text"] c have g: "\<forall>b \<in> set bs. goodBlock b" by simp
    from ensure_with_blocks [OF c False] have e: "ensureFootnotesAtEnd text = trimEnd w @ 10 # blockLines bs" .
    from False obtain b bs' where bs: "bs = b # bs'" by (cases bs) auto
    have "matchDefHead (blockLines bs) = None"
      unfolding bs blockLines_def by (simp add: matchDefHead_other)
    from collect_after_body [OF body this] collect_blockLines [OF g]
    have c2: "collectDefBlocks (trimEnd w @ 10 # blockLines bs)
        = (trimEnd w @ 10 # replicate (length bs) 10, bs)" by simp
    have "\<forall>c \<in> set (10 # replicate (length bs) 10). isSpace c" by (simp add: isSpace_def)
    from trimEnd_append_spaces [OF this, of "trimEnd w"]
    have t: "trimEnd (trimEnd w @ 10 # replicate (length bs) 10) = trimEnd w" by (simp add: trimEnd_idem)
    from ensure_with_blocks [OF c2 False] show ?thesis unfolding e t .
  qed
qed

theorem C10_ensureFootnotesAtEnd_idempotent_witness:
  "ensureFootnotesAtEnd (js ''a[^1]\<newline>[^1]: x \<newline> more\<newline>\<newline>b'')
     = js ''a[^1]\<newline>\<newline>[^1]: x \<newline> more\<newline>\<newline>b''
   \<and> ensureFootnotesAtEnd (js ''a[^1]\<newline>\<newline>[^1]: x \<newline> more\<newline>\<newline>b'')
     = js ''a[^1]\<newline>\<newline>[^1]: x \<newline> more\<newline>\<newline>b''"
proof -
  have c: "collectDefBlocks (js ''a[^1]\<newline>[^1]: x \<newline> more\<newline>\<newline>b'')
     = (js ''a[^1]\<newline>'', [js ''[^1]: x \<newline> more\<newline>\<newline>b''])"
    by (simp add: collectDefBlocks.simps dropLeadingNewline_def validator_eval
        del: dropWhile_eq_Nil_conv)
  have "ensureFootnotesAtEnd (js ''a[^1]\<newline>[^1]: x \<newline> more\<newline>\<newline>b'')
     = js ''a[^1]\<newline>\<newline>[^1]: x \<newline> more\<newline>\<newline>b''"
    unfolding ensureFootnotesAtEnd_def c by (simp add: validator_eval)
  then show ?thesis
    using C10_ensureFootnotesAtEnd_idempotent
      [of "js ''a[^1]\<newline>[^1]: x \<newline> more\<newline>\<newline>b''"]
    by simp
qed

section \<open>Validator: the candidates it accepts and rejects\<close>

text \<open>The normal form that \<open>validatePreserveSource\<close> compares: dash spacing, then white
  space.\<close>

definition normalized :: "jsstring \<Rightarrow> jsstring" where
  "normalized s = normalizeWhitespace (normalizeDashSpacing s)"

text \<open>The number of characters of a text that are no white space.\<close>

definition inkCount :: "jsstring \<Rightarrow> nat" where
  "inkCount s = length (filter (\<lambda>c. \<not> isSpace c) s)"

text \<open>
  A candidate body is described by the way it is formed from a text: each character of the
  text is kept, and a marker \<open>[^ds]\<close> may be inserted at any place. \<open>sourceOf\<close> is the text,
  \<open>withMarkers\<close> the text with the markers; the markers are well formed when their
  identifiers are non-empty runs of digits.
\<close>

datatype edit = Keep nat | Insert jsstring

fun sourceOf :: "edit list \<Rightarrow> jsstring" where
  "sourceOf [] = []"
| "sourceOf (Keep c # es) = c # sourceOf es"
| "sourceOf (Insert ds # es) = sourceOf es"

fun withMarkers :: "edit list \<Rightarrow> jsstring" where
  "withMarkers [] = []"
| "withMarkers (Keep c # es) = c # withMarkers es"
| "withMarkers (Insert ds # es) = 91 # 94 # ds @ 93 # withMarkers es"

definition markersOnly :: "edit list \<Rightarrow> bool" where
  "markersOnly es = list_all (\<lambda>e. case e of Insert ds \<Rightarrow> digitsOnly ds | Keep c \<Rightarrow> True) es"

text \<open>
  A text without footnote syntax of its own: \<open>FOOTNOTE_REF_RE\<close> matches nowhere in it, and
  no line of it starts with a colon (a marker inserted there would read as a definition
  head).
\<close>

fun noMarker :: "jsstring \<Rightarrow> bool" where
  "noMarker [] = True"
| "noMarker (c # cs) = (matchMarker (c # cs) = None \<and> noMarker cs)"

definition startsWithColon :: "jsstring \<Rightarrow> bool" where
  "startsWithColon s = (case s of [] \<Rightarrow> False | c # r \<Rightarrow> c = 58)"

fun noColonAfterBreak :: "jsstring \<Rightarrow> bool" where
  "noColonAfterBreak [] = True"
| "noColonAfterBreak (c # cs) = ((isLineTerminator c \<longrightarrow> \<not> startsWithColon cs) \<and> noColonAfterBreak cs)"

definition plainSource :: "jsstring \<Rightarrow> bool" where
  "plainSource s = (noMarker s \<and> \<not> startsWithColon s \<and> noColonAfterBreak s)"

text \<open>No definition head follows a line terminator of the text.\<close>

fun noHeadAfterBreak :: "jsstring \<Rightarrow> bool" where
  "noHeadAfterBreak [] = True"
| "noHeadAfterBreak (c # cs) = ((isLineTerminator c \<longrightarrow> matchDefHead cs = None) \<and> noHeadAfterBreak cs)"

text \<open>The test that \<open>validateFootnoteEmojis\<close> applies to the content of a definition line:
  after its leading white space it is not empty and starts with an allowed emoji.\<close>

definition emojiContent :: "jsstring \<Rightarrow> bool" where
  "emojiContent content =
     (trimStart content \<noteq> [] \<and> list_ex (\<lambda>emoji. startsWith (trimStart content) emoji) ALLOWED_EMOJIS)"

text \<open>A definition on one line, \<open>[^ds]:content\<close>: a head, then content without a line
  terminator.\<close>

definition definitionLine :: "jsstring \<Rightarrow> bool" where
  "definitionLine d =
     (case matchDefHead d of
        Some (ds, content) \<Rightarrow> list_all (\<lambda>c. \<not> isLineTerminator c) content
      | None \<Rightarrow> False)"

definition contentOf :: "jsstring \<Rightarrow> jsstring" where
  "contentOf d = (case matchDefHead d of Some (ds, content) \<Rightarrow> content | None \<Rightarrow> [])"

text \<open>
  A definition as it is appended to a candidate: a head, then the text that
  \<open>FOOTNOTE_DEF_BLOCK_RE\<close> takes as its block, that is the rest of the line and any further
  lines, entered through a line feed, that do not start with a definition head.
  \<open>firstLineContent\<close> is the content of its first line, which is what \<open>FOOTNOTE_DEF_RE\<close>
  captures.
\<close>

definition definitionBlock :: "jsstring \<Rightarrow> bool" where
  "definitionBlock d =
     (case matchDefHead d of Some (ds, m) \<Rightarrow> blockText m | None \<Rightarrow> False)"

definition firstLineContent :: "jsstring \<Rightarrow> jsstring" where
  "firstLineContent d =
     (case matchDefHead d of Some (ds, m) \<Rightarrow> takeWhile (\<lambda>c. \<not> isLineTerminator c) m | None \<Rightarrow> [])"

definition emojiBlock :: "jsstring \<Rightarrow> bool" where
  "emojiBlock d = (definitionBlock d \<and> emojiContent (firstLineContent d))"

subsection \<open>White space around a text does not change its normal form\<close>

lemma matchDash_space: "isSpace x \<Longrightarrow> matchDash (x # s) = matchDash s"
  by (simp add: matchDash_def)

lemma normalizeDashSpacing_unfold:
  "normalizeDashSpacing s =
     (case s of [] \<Rightarrow> [] | c # cs \<Rightarrow>
        (case matchDash s of Some (d, rest) \<Rightarrow> 32 # d # 32 # normalizeDashSpacing rest
         | None \<Rightarrow> c # normalizeDashSpacing cs))"
  by (cases s) simp_all

lemma trimStart_space: "isSpace x \<Longrightarrow> trimStart (x # s) = trimStart s"
  by (simp add: trimStart_def)

lemma collapse_space_space:
  "isSpace x \<Longrightarrow> collapseSpaces (x # t) = 32 # collapseSpaces (dropWhile isSpace t)"
  by simp

lemma trim_collapse_space:
  assumes "isSpace x"
  shows "trim (collapseSpaces (x # t)) = trim (collapseSpaces t)"
proof (cases t)
  case Nil
  with assms show ?thesis by (simp add: trim_def trimStart_def trimEnd_def isSpace_def)
next
  case (Cons y t')
  have sp: "isSpace 32" by (simp add: isSpace_def)
  show ?thesis
  proof (cases "isSpace y")
    case True
    with assms Cons show ?thesis by simp
  next
    case False
    with assms Cons sp show ?thesis by (simp add: trim_def trimStart_def)
  qed
qed

lemma normalized_leading: "isSpace x \<Longrightarrow> normalized (x # s) = normalized s"
proof -
  assume x: "isSpace x"
  show ?thesis
  proof (cases "matchDash s")
    case None
    with x have "normalizeDashSpacing (x # s) = x # normalizeDashSpacing s"
      by (simp add: matchDash_space)
    then have "normalized (x # s) = trim (collapseSpaces (x # normalizeDashSpacing s))"
      by (simp only: normalized_def normalizeWhitespace_def)
    also have "\<dots> = trim (collapseSpaces (normalizeDashSpacing s))"
      by (rule trim_collapse_space [OF x])
    finally show ?thesis by (simp only: normalized_def normalizeWhitespace_def)
  next
    case (Some a)
    obtain d rest where a: "a = (d, rest)" by (cases a)
    from Some have "s \<noteq> []" by (auto simp: matchDash_def)
    then obtain c cs where s: "s = c # cs" by (cases s) auto
    from Some a x s have "normalizeDashSpacing (x # s) = normalizeDashSpacing s"
      using matchDash_space [of x s] by simp
    then show ?thesis by (simp add: normalized_def)
  qed
qed

lemma normalized_leading_spaces: "\<forall>c \<in> set l. isSpace c \<Longrightarrow> normalized (l @ s) = normalized s"
  by (induction l) (simp_all add: normalized_leading)

lemma dropWhile_snoc_space:
  "isSpace x \<Longrightarrow> dropWhile isSpace (r @ [x]) = (if dropWhile isSpace r = [] then [] else dropWhile isSpace r @ [x])"
  by (induction r) auto

lemma normalizeDashSpacing_snoc:
  assumes "isSpace x"
  shows "normalizeDashSpacing (s @ [x]) = normalizeDashSpacing s
       \<or> normalizeDashSpacing (s @ [x]) = normalizeDashSpacing s @ [x]"
proof (induction s rule: normalizeDashSpacing.induct)
  case 1
  from assms have "matchDash [x] = None" by (simp add: matchDash_def)
  then show ?case by simp
next
  case (2 c cs)
  show ?case
  proof (cases "matchDash (c # cs)")
    case None
    define S where "S = c # cs"
    from None have "matchDash S = None" by (simp add: S_def)
    then have "matchDash (S @ [x]) = None"
      unfolding matchDash_def dropWhile_snoc_space [OF assms]
      by (cases "dropWhile isSpace S") (simp_all split: if_splits)
    then have "matchDash ((c # cs) @ [x]) = None" by (simp add: S_def)
    with None "2.IH"(1) [OF None] show ?thesis by auto
  next
    case (Some a)
    obtain d rest where a: "a = (d, rest)" by (cases a)
    from Some a obtain r where dr: "dropWhile isSpace (c # cs) = d # r" and d: "isDash d"
      and rest: "rest = dropWhile isSpace r"
      by (auto simp: matchDash_def split: list.splits if_splits)
    from dr assms have "dropWhile isSpace ((c # cs) @ [x]) = d # (r @ [x])"
      using dropWhile_snoc_space [of x "c # cs"] by simp
    with d have m: "matchDash ((c # cs) @ [x]) = Some (d, dropWhile isSpace (r @ [x]))"
      by (simp add: matchDash_def)
    from "2.IH"(2) [OF Some a [symmetric]]
    have ih: "normalizeDashSpacing (rest @ [x]) = normalizeDashSpacing rest
       \<or> normalizeDashSpacing (rest @ [x]) = normalizeDashSpacing rest @ [x]" .
    show ?thesis
    proof (cases "dropWhile isSpace r = []")
      case True
      with assms have "dropWhile isSpace (r @ [x]) = []" by (simp add: dropWhile_snoc_space)
      with m Some a rest True show ?thesis by simp
    next
      case False
      with assms have "dropWhile isSpace (r @ [x]) = rest @ [x]" by (simp add: dropWhile_snoc_space rest)
      with m Some a ih show ?thesis by auto
    qed
  qed
qed

lemma collapseSpaces_snoc:
  assumes "isSpace x"
  shows "collapseSpaces (t @ [x]) = collapseSpaces t \<or> collapseSpaces (t @ [x]) = collapseSpaces t @ [32]"
proof (induction t rule: collapseSpaces.induct)
  case 1
  with assms show ?case by simp
next
  case (2 c cs)
  show ?case
  proof (cases "isSpace c")
    case True
    show ?thesis
    proof (cases "dropWhile isSpace cs = []")
      case True': True
      with assms have "dropWhile isSpace (cs @ [x]) = []" by (simp add: dropWhile_snoc_space)
      with True True' show ?thesis by (simp del: dropWhile_eq_Nil_conv)
    next
      case False
      with assms have "dropWhile isSpace (cs @ [x]) = dropWhile isSpace cs @ [x]"
        by (simp add: dropWhile_snoc_space)
      with True "2.IH"(1) [OF True] show ?thesis by auto
    qed
  next
    case False
    with "2.IH"(2) [OF False] show ?thesis by auto
  qed
qed

lemma trim_append_spaces: "\<forall>c \<in> set w. isSpace c \<Longrightarrow> trim (u @ w) = trim u"
proof -
  assume w: "\<forall>c \<in> set w. isSpace c"
  show ?thesis
  proof (cases "\<forall>c \<in> set u. isSpace c")
    case True
    with w have "trimStart (u @ w) = []" "trimStart u = []" by (simp_all add: trimStart_def)
    then show ?thesis by (simp add: trim_def)
  next
    case False
    then obtain y where "y \<in> set u" "\<not> isSpace y" by blast
    then have "trimStart (u @ w) = trimStart u @ w"
      unfolding trimStart_def by (rule dropWhile_append1)
    with w show ?thesis by (simp add: trim_def trimEnd_append_spaces)
  qed
qed

lemma normalized_trailing: "isSpace x \<Longrightarrow> normalized (s @ [x]) = normalized s"
proof -
  assume x: "isSpace x"
  have sp: "isSpace 32" by (simp add: isSpace_def)
  have c: "trim (collapseSpaces (t @ [x])) = trim (collapseSpaces t)" for t
  proof -
    from sp have "trim (collapseSpaces t @ [32]) = trim (collapseSpaces t)"
      by (intro trim_append_spaces) simp
    with collapseSpaces_snoc [OF x, of t] show ?thesis by auto
  qed
  from normalizeDashSpacing_snoc [OF x, of s] show ?thesis
    by (auto simp: normalized_def normalizeWhitespace_def c)
qed

lemma normalized_trailing_spaces: "\<forall>c \<in> set r. isSpace c \<Longrightarrow> normalized (s @ r) = normalized s"
proof (induction r rule: rev_induct)
  case Nil
  then show ?case by simp
next
  case (snoc x r)
  then have "normalized ((s @ r) @ [x]) = normalized (s @ r)" by (intro normalized_trailing) simp
  with snoc show ?case by simp
qed

lemma trimStart_split: "\<exists>ws. s = ws @ trimStart s \<and> (\<forall>c \<in> set ws. isSpace c)"
  unfolding trimStart_def
  by (metis takeWhile_dropWhile_id set_takeWhileD)

lemma normalized_trim: "normalized (trim s) = normalized s"
proof -
  obtain l where l: "s = l @ trimStart s" "\<forall>c \<in> set l. isSpace c" using trimStart_split by blast
  obtain r where r: "trimStart s = trimEnd (trimStart s) @ r" "\<forall>c \<in> set r. isSpace c"
    using trimEnd_split by blast
  have "normalized s = normalized (trimStart s)"
    using normalized_leading_spaces [OF l(2), of "trimStart s"] l(1) by simp
  also have "\<dots> = normalized (trimEnd (trimStart s))"
    using normalized_trailing_spaces [OF r(2), of "trimEnd (trimStart s)"] r(1) by simp
  finally show ?thesis by (simp add: trim_def)
qed

subsection \<open>Markers inserted into a text without footnote syntax\<close>

lemma markersOnly_simps [simp]:
  "markersOnly []"
  "markersOnly (Keep c # es) = markersOnly es"
  "markersOnly (Insert ds # es) = (digitsOnly ds \<and> markersOnly es)"
  by (simp_all add: markersOnly_def)

lemma withMarkers_first:
  "(withMarkers es = [] \<and> sourceOf es = [])
   \<or> (\<exists>c r. withMarkers es = c # r \<and> (c = 91 \<or> (\<exists>r'. sourceOf es = c # r')))"
  by (cases es rule: withMarkers.cases) simp_all

lemma digit_run:
  assumes "w = [] \<or> isLineTerminator (hd w)"
  shows "dropWhile isDigit (withMarkers es @ w) = []
       \<or> hd (dropWhile isDigit (withMarkers es @ w)) \<noteq> 93
       \<or> (takeWhile isDigit (withMarkers es @ w) = takeWhile isDigit (sourceOf es)
           \<and> dropWhile isDigit (sourceOf es) \<noteq> [] \<and> hd (dropWhile isDigit (sourceOf es)) = 93)"
proof (induction es rule: withMarkers.induct)
  case 1
  show ?case
  proof (cases w)
    case Nil
    then show ?thesis by simp
  next
    case (Cons l w')
    with assms have "isLineTerminator l" by simp
    then have "\<not> isDigit l" "l \<noteq> 93" by (simp_all add: lineTerminator_plain)
    with Cons show ?thesis by simp
  qed
next
  case (2 c es)
  show ?case
  proof (cases "isDigit c")
    case True
    with 2 show ?thesis by simp
  next
    case False
    then show ?thesis by (cases "c = 93") simp_all
  qed
next
  case (3 ds es)
  have "\<not> isDigit 91" by (simp add: isDigit_def)
  then show ?case by simp
qed

lemma matchMarker_None_withMarkers:
  assumes "matchMarker (c # sourceOf es) = None" and "w = [] \<or> isLineTerminator (hd w)"
  shows "matchMarker (c # withMarkers es @ w) = None"
proof (cases "c = 91")
  case False
  then show ?thesis by (rule matchMarker_other)
next
  case c: True
  show ?thesis
  proof (cases es rule: withMarkers.cases)
    case 1
    show ?thesis
    proof (cases w)
      case Nil
      with 1 show ?thesis by (simp add: matchMarker_def)
    next
      case (Cons l w')
      with assms have "isLineTerminator l" by simp
      then have "l \<noteq> 94" by (simp add: lineTerminator_plain)
      with Cons 1 show ?thesis by (simp add: matchMarker_def)
    qed
  next
    case (2 x es')
    show ?thesis
    proof (cases "x = 94")
      case False
      with 2 show ?thesis by (simp add: matchMarker_def)
    next
      case True
      from assms(1) have n: "matchMarker (91 # 94 # sourceOf es') = None"
        by (simp add: c 2 True)
      from digit_run [OF assms(2), of es'] n
      have "matchMarker (91 # 94 # withMarkers es' @ w) = None"
        unfolding matchMarker_open by (auto split: if_splits)
      then show ?thesis by (simp add: c 2 True)
    qed
  next
    case (3 ds es')
    then show ?thesis by (simp add: matchMarker_def)
  qed
qed

lemma matchDefHead_line_break:
  assumes "w = [] \<or> isLineTerminator (hd w)"
  shows "matchDefHead w = None"
proof (cases w)
  case Nil
  then show ?thesis by (simp add: matchDefHead_def matchMarker_def)
next
  case (Cons l w')
  with assms have "l \<noteq> 91" by (simp add: lineTerminator_plain)
  with Cons show ?thesis by (simp add: matchDefHead_other)
qed

lemma matchDefHead_None_withMarkers:
  assumes "noMarker (sourceOf es)" and "\<not> startsWithColon (sourceOf es)" and "markersOnly es"
    and "w = [] \<or> isLineTerminator (hd w)"
  shows "matchDefHead (withMarkers es @ w) = None"
proof (cases es rule: withMarkers.cases)
  case 1
  with matchDefHead_line_break [OF assms(4)] show ?thesis by simp
next
  case (2 c es')
  with assms(1) have "matchMarker (c # sourceOf es') = None" by simp
  from matchMarker_None_withMarkers [OF this assms(4)] 2 show ?thesis
    by (simp add: matchDefHead_def)
next
  case (3 ds es')
  with assms(3) have ds: "digitsOnly ds" by simp
  let ?r = "withMarkers es' @ w"
  have m: "matchMarker (withMarkers es @ w) = Some (ds, ?r)"
    using matchMarker_built [OF ds, of ?r] 3 by simp
  have "?r = [] \<or> hd ?r \<noteq> 58"
  proof -
    from withMarkers_first [of es']
    consider "withMarkers es' = []" "sourceOf es' = []"
      | c r where "withMarkers es' = c # r" "c = 91"
      | c r r' where "withMarkers es' = c # r" "sourceOf es' = c # r'" by blast
    then show ?thesis
    proof cases
      case 1
      with assms(4) show ?thesis by (cases w) (auto simp: lineTerminator_plain)
    next
      case 2
      then show ?thesis by simp
    next
      case 3: 3
      with assms(2) \<open>es = Insert ds # es'\<close> show ?thesis by (simp add: startsWithColon_def)
    qed
  qed
  with m show ?thesis by (cases ?r) (simp_all add: matchDefHead_def)
qed

lemma noHeadAfterBreak_plain:
  "\<forall>c \<in> set p. \<not> isLineTerminator c \<Longrightarrow> noHeadAfterBreak (p @ q) = noHeadAfterBreak q"
  by (induction p) simp_all

lemma noHeadAfterBreak_withMarkers:
  assumes "noMarker (sourceOf es)" and "noColonAfterBreak (sourceOf es)" and "markersOnly es"
    and "w = [] \<or> isLineTerminator (hd w)" and "noHeadAfterBreak w"
  shows "noHeadAfterBreak (withMarkers es @ w)"
  using assms(1-3)
proof (induction es rule: withMarkers.induct)
  case 1
  from assms(5) show ?case by simp
next
  case (2 c es)
  then have ih: "noHeadAfterBreak (withMarkers es @ w)" by simp
  have "matchDefHead (withMarkers es @ w) = None" if "isLineTerminator c"
    using that 2 by (intro matchDefHead_None_withMarkers assms(4)) simp_all
  with ih show ?case by simp
next
  case (3 ds es)
  then have ih: "noHeadAfterBreak (withMarkers es @ w)" and ds: "digitsOnly ds" by simp_all
  have "\<forall>c \<in> set (91 # 94 # ds @ [93]). \<not> isLineTerminator c"
    using ds by (auto simp: digitsOnly_def isLineTerminator_def isDigit_def)
  from noHeadAfterBreak_plain [OF this, of "withMarkers es @ w"] ih show ?case by simp
qed

lemma removeRefs_plain: "91 \<notin> set w \<Longrightarrow> removeRefs w = w"
  by (induction w) (simp_all add: matchMarker_other)

lemma removeRefs_withMarkers:
  assumes "noMarker (sourceOf es)" and "markersOnly es" and "w = [] \<or> isLineTerminator (hd w)"
    and "91 \<notin> set w"
  shows "removeRefs (withMarkers es @ w) = sourceOf es @ w"
  using assms(1,2)
proof (induction es rule: withMarkers.induct)
  case 1
  from assms(4) show ?case by (simp add: removeRefs_plain)
next
  case (2 c es)
  then have "matchMarker (c # sourceOf es) = None" by simp
  from matchMarker_None_withMarkers [OF this assms(3)] 2 show ?case by simp
next
  case (3 ds es)
  then have ds: "digitsOnly ds" by simp
  from matchMarker_built [OF ds, of "withMarkers es @ w"] 3 show ?case by simp
qed

lemma noDefStart_noHead: "noHeadAfterBreak s \<Longrightarrow> noDefStart s"
  by (induction s) (auto simp: matchDefBlock_None_iff isLineTerminator_def)

lemma removeDefBlocks_prefix:
  assumes "noDefStart b" and "y = [] \<or> isLineTerminator (hd y)"
  shows "removeDefBlocks (b @ y) = b @ removeDefBlocks y"
  using assms(1)
proof (induction b)
  case Nil
  then show ?case by simp
next
  case (Cons c b)
  then have "matchDefBlock (c # b) = None" by simp
  from matchDefBlock_boundary [OF this assms(2)] Cons show ?case by simp
qed

subsection \<open>Definition lines\<close>

lemma definitionLine_shape:
  assumes "definitionLine d"
  shows "\<exists>ds. digitsOnly ds \<and> d = 91 # 94 # ds @ 93 # 58 # contentOf d
     \<and> (\<forall>c \<in> set (contentOf d). \<not> isLineTerminator c)
     \<and> matchDefHead d = Some (ds, contentOf d)"
proof -
  from assms obtain ds content where h: "matchDefHead d = Some (ds, content)"
    and c: "\<forall>c \<in> set content. \<not> isLineTerminator c"
    by (auto simp: definitionLine_def list_all_iff split: option.splits)
  from matchDefHead_Some [OF h] have "d = 91 # 94 # ds @ 93 # 58 # content" "digitsOnly ds"
    by (simp_all add: digitsOnly_def)
  with h c show ?thesis by (auto simp: contentOf_def)
qed

lemma definitionLine_plain:
  assumes "definitionLine d"
  shows "\<forall>c \<in> set d. \<not> isLineTerminator c"
proof -
  from definitionLine_shape [OF assms] obtain ds where ds: "digitsOnly ds"
    and d: "d = 91 # 94 # ds @ 93 # 58 # contentOf d"
    and c: "\<forall>c \<in> set (contentOf d). \<not> isLineTerminator c" by blast
  from ds have "\<forall>c \<in> set ds. \<not> isLineTerminator c"
    by (auto simp: digitsOnly_def isLineTerminator_def isDigit_def)
  with c have "\<forall>c \<in> set (91 # 94 # ds @ 93 # 58 # contentOf d). \<not> isLineTerminator c"
    by (auto simp: isLineTerminator_def)
  with d show ?thesis by simp
qed

subsection \<open>The lines of a text\<close>

lemma linesOf_nonempty: "linesOf s \<noteq> []"
  by (induction s) (auto split: list.splits)

lemma linesOf_break:
  "isLineTerminator c \<Longrightarrow> linesOf (u @ c # v) = linesOf u @ linesOf v"
proof (induction u)
  case Nil
  then show ?case by simp
next
  case (Cons a u)
  obtain l ls where "linesOf u = l # ls" using linesOf_nonempty [of u] by (cases "linesOf u") auto
  with Cons show ?case by simp
qed

lemma linesOf_plain: "\<forall>c \<in> set l. \<not> isLineTerminator c \<Longrightarrow> linesOf l = [l]"
  by (induction l) simp_all

lemma defLineContents_break:
  "isLineTerminator c \<Longrightarrow> defLineContents (u @ c # v) = defLineContents u @ defLineContents v"
  by (simp add: defLineContents_def linesOf_break map_filter_def)

lemma defLineContents_plain:
  "\<forall>c \<in> set l. \<not> isLineTerminator c \<Longrightarrow>
   defLineContents l = (case matchDefHead l of Some (ds, content) \<Rightarrow> [content] | None \<Rightarrow> [])"
  by (simp add: defLineContents_def linesOf_plain map_filter_def split: option.splits)

lemma noHeadAfterBreak_suffix:
  "noHeadAfterBreak (p @ c # r) \<Longrightarrow> (isLineTerminator c \<longrightarrow> matchDefHead r = None) \<and> noHeadAfterBreak r"
  by (induction p) simp_all

lemma defLineContents_none:
  "matchDefHead s = None \<Longrightarrow> noHeadAfterBreak s \<Longrightarrow> defLineContents s = []"
proof (induction "length s" arbitrary: s rule: less_induct)
  case less
  let ?l = "takeWhile notLT s"
  have s: "s = ?l @ dropWhile notLT s" by simp
  have plain: "\<forall>c \<in> set ?l. \<not> isLineTerminator c" by (auto dest: set_takeWhileD)
  from less.prems(1) s have hl: "matchDefHead ?l = None" by (metis matchDefHead_prefix_None)
  with plain have l: "defLineContents ?l = []" by (simp add: defLineContents_plain)
  show ?case
  proof (cases "dropWhile notLT s")
    case Nil
    with s l show ?thesis by simp
  next
    case (Cons c r)
    then have c: "isLineTerminator c" by (metis hd_dropWhile list.sel(1) list.distinct(1))
    from s Cons have s': "s = ?l @ c # r" by simp
    with less.prems(2) have "noHeadAfterBreak (?l @ c # r)" by simp
    from noHeadAfterBreak_suffix [OF this] c have "matchDefHead r = None" "noHeadAfterBreak r"
      by simp_all
    moreover from s' have "length r < length s" by (metis length_append length_Cons less_add_Suc2 add_Suc_right)
    ultimately have "defLineContents r = []" by (intro less.hyps)
    with l defLineContents_break [OF c, of ?l r] s' show ?thesis by simp
  qed
qed

lemma defLineContents_member:
  assumes "definitionLine d" and "pre = [] \<or> isLineTerminator (last pre)"
    and "post = [] \<or> isLineTerminator (hd post)"
  shows "contentOf d \<in> set (defLineContents (pre @ d @ post))"
proof -
  from definitionLine_shape [OF assms(1)] obtain n where "matchDefHead d = Some (n, contentOf d)" by blast
  with definitionLine_plain [OF assms(1)] have d: "defLineContents d = [contentOf d]"
    by (simp add: defLineContents_plain)
  have post: "contentOf d \<in> set (defLineContents (d @ post))"
  proof (cases post)
    case Nil
    with d show ?thesis by simp
  next
    case (Cons c post')
    with assms(3) have "isLineTerminator c" by simp
    from defLineContents_break [OF this, of d post'] d Cons show ?thesis by simp
  qed
  show ?thesis
  proof (cases "pre = []")
    case True
    with post show ?thesis by simp
  next
    case False
    then obtain p c where pre: "pre = p @ [c]" by (metis rev_exhaust)
    with assms(2) have "isLineTerminator c" by simp
    from defLineContents_break [OF this, of p "d @ post"] post pre show ?thesis by simp
  qed
qed

subsection \<open>The characters that are no white space are kept by the normal form\<close>

lemma inkCount_simps [simp]:
  "inkCount [] = 0"
  "inkCount (c # s) = (if isSpace c then inkCount s else Suc (inkCount s))"
  "inkCount (s @ t) = inkCount s + inkCount t"
  by (simp_all add: inkCount_def)

lemma inkCount_dropWhile: "inkCount (dropWhile isSpace s) = inkCount s"
  by (induction s) simp_all

lemma inkCount_spaces: "\<forall>c \<in> set w. isSpace c \<Longrightarrow> inkCount w = 0"
  by (induction w) simp_all

lemma inkCount_trim: "inkCount (trim s) = inkCount s"
proof -
  obtain l where l: "s = l @ trimStart s" "\<forall>c \<in> set l. isSpace c" using trimStart_split by blast
  obtain r where r: "trimStart s = trimEnd (trimStart s) @ r" "\<forall>c \<in> set r. isSpace c"
    using trimEnd_split by blast
  have "inkCount s = inkCount l + inkCount (trimStart s)" using l(1) by (metis inkCount_simps(3))
  also have "inkCount (trimStart s) = inkCount (trim s) + inkCount r"
    using r(1) unfolding trim_def by (metis inkCount_simps(3))
  finally show ?thesis using l(2) r(2) by (simp add: inkCount_spaces)
qed

lemma inkCount_collapseSpaces: "inkCount (collapseSpaces s) = inkCount s"
proof (induction s rule: collapseSpaces.induct)
  case 1
  show ?case by simp
next
  case (2 c cs)
  have "isSpace 32" by (simp add: isSpace_def)
  with 2 show ?case by (simp add: inkCount_dropWhile)
qed

lemma inkCount_normalizeDashSpacing: "inkCount (normalizeDashSpacing s) = inkCount s"
proof (induction s rule: normalizeDashSpacing.induct)
  case 1
  show ?case by simp
next
  case (2 c cs)
  have sp: "isSpace 32" by (simp add: isSpace_def)
  show ?case
  proof (cases "matchDash (c # cs)")
    case None
    with 2 show ?thesis by simp
  next
    case (Some a)
    obtain d rest where a: "a = (d, rest)" by (cases a)
    from Some a obtain r where dr: "dropWhile isSpace (c # cs) = d # r" and d: "isDash d"
      and rest: "rest = dropWhile isSpace r"
      by (auto simp: matchDash_def split: list.splits if_splits)
    from d have nd: "\<not> isSpace d" by (auto simp: isDash_def isSpace_def)
    have "inkCount (c # cs) = inkCount (d # r)" using inkCount_dropWhile [of "c # cs"] dr by simp
    also have "\<dots> = Suc (inkCount rest)" using nd by (simp add: rest inkCount_dropWhile)
    finally have "inkCount (c # cs) = Suc (inkCount rest)" .
    moreover from "2.IH"(2) [OF Some a [symmetric]] have "inkCount (normalizeDashSpacing rest) = inkCount rest" .
    ultimately show ?thesis using Some a sp nd by simp
  qed
qed

lemma inkCount_normalized: "inkCount (normalized s) = inkCount s"
  by (simp add: normalized_def normalizeWhitespace_def inkCount_trim inkCount_collapseSpaces
      inkCount_normalizeDashSpacing)

lemma includesStr_inkCount: "includesStr s p \<Longrightarrow> inkCount p \<le> inkCount s"
  by (auto simp: includesStr_iff)

lemma validatePreserveSource_normalized:
  "validatePreserveSource src candidate
     = (normalized (trim src) = []
        \<or> includesStr (normalized (removeRefs (removeDefBlocks candidate))) (normalized (trim src)))"
  unfolding validatePreserveSource_def Let_def normalized_def
  by (auto split: option.splits dest: includesStr_sliceStr)

subsection \<open>Appended definition blocks\<close>

lemma definitionBlock_shape:
  assumes "definitionBlock d"
  shows "\<exists>n m. digitsOnly n \<and> d = 91 # 94 # n @ 93 # 58 # m \<and> blockText m
     \<and> matchDefHead d = Some (n, m) \<and> firstLineContent d = takeWhile notLT m"
proof -
  from assms obtain n m where h: "matchDefHead d = Some (n, m)" and m: "blockText m"
    by (auto simp: definitionBlock_def split: option.splits)
  from matchDefHead_Some [OF h] have "d = 91 # 94 # n @ 93 # 58 # m" "digitsOnly n"
    by (simp_all add: digitsOnly_def)
  with h m show ?thesis by (auto simp: firstLineContent_def)
qed

lemma blockLines_blocks_stops:
  "\<forall>d \<in> set ds. definitionBlock d \<Longrightarrow> stopsBlock (blockLines ds)"
proof (cases ds)
  case Nil
  then show ?thesis by (simp add: blockLines_def stopsBlock_def)
next
  case (Cons d ds')
  assume "\<forall>d \<in> set ds. definitionBlock d"
  with Cons have "definitionBlock d" by simp
  from definitionBlock_shape [OF this] obtain n m where "matchDefHead d = Some (n, m)" by blast
  from matchDefHead_append [OF this] Cons show ?thesis
    by (simp add: blockLines_def stopsBlock_def isLineTerminator_def)
qed

lemma removeDefBlocks_blocks:
  "\<forall>d \<in> set ds. definitionBlock d \<Longrightarrow> removeDefBlocks (blockLines ds) = []"
proof (induction ds)
  case Nil
  then show ?case by (simp add: blockLines_def)
next
  case (Cons d ds)
  then have g: "definitionBlock d" and gs: "\<forall>d \<in> set ds. definitionBlock d" by simp_all
  from definitionBlock_shape [OF g] obtain n m where n: "digitsOnly n"
    and d: "d = 91 # 94 # n @ 93 # 58 # m" and m: "blockText m" by blast
  let ?X = "blockLines ds"
  have "defBlockLines (m @ ?X) = (m, ?X)"
    using m blockLines_blocks_stops [OF gs] by (rule defBlockLines_blockText_append)
  moreover have "matchDefHead (d @ ?X) = Some (n, m @ ?X)"
    using matchDefHead_built [OF n, of "m @ ?X"] d by simp
  ultimately have "matchDefBlock (10 # d @ ?X) = Some (10 # 91 # 94 # n @ 93 # 58 # m, ?X)"
    by (simp add: matchDefBlock_def)
  with Cons.IH [OF gs] have "removeDefBlocks (10 # d @ ?X) = []" by simp
  then show ?case by (simp add: blockLines_def)
qed

lemma defLineContents_blockText:
  "blockText m \<Longrightarrow> matchDefHead m = None \<Longrightarrow> defLineContents m = []"
proof (induction "length m" arbitrary: m rule: less_induct)
  case less
  from blockText_cases [OF less.prems(1)]
  show ?case
  proof
    assume "\<forall>c \<in> set m. notLT c"
    with less.prems(2) show ?thesis by (simp add: defLineContents_plain)
  next
    assume "\<exists>l m'. m = l @ 10 # m' \<and> (\<forall>c \<in> set l. notLT c) \<and> matchDefHead m' = None \<and> blockText m'"
    then obtain l m' where m: "m = l @ 10 # m'" and l: "\<forall>c \<in> set l. notLT c"
      and h: "matchDefHead m' = None" and b: "blockText m'" by blast
    from m have "length m' < length m" by simp
    from less.hyps [OF this b h] have r: "defLineContents m' = []" .
    from less.prems(2) m have "matchDefHead l = None" by (metis matchDefHead_prefix_None)
    with l have "defLineContents l = []" by (simp add: defLineContents_plain)
    moreover have "isLineTerminator 10" by (simp add: isLineTerminator_def)
    from defLineContents_break [OF this, of l m'] have "defLineContents m = defLineContents l @ defLineContents m'"
      by (simp add: m)
    ultimately show ?thesis using r by simp
  qed
qed

lemma defLineContents_block:
  assumes "definitionBlock d"
  shows "defLineContents d = [firstLineContent d]"
proof -
  from definitionBlock_shape [OF assms] obtain n m where n: "digitsOnly n"
    and d: "d = 91 # 94 # n @ 93 # 58 # m" and m: "blockText m"
    and f: "firstLineContent d = takeWhile notLT m" by blast
  let ?h = "91 # 94 # n @ [93, 58]"
  have h: "\<forall>c \<in> set ?h. notLT c"
    using n by (auto simp: digitsOnly_def isLineTerminator_def isDigit_def)
  have lt: "isLineTerminator 10" by (simp add: isLineTerminator_def)
  from blockText_cases [OF m]
  show ?thesis
  proof
    assume p: "\<forall>c \<in> set m. notLT c"
    with h have "\<forall>c \<in> set d. notLT c" unfolding d by auto
    moreover have "matchDefHead d = Some (n, m)" unfolding d by (rule matchDefHead_built [OF n])
    ultimately have "defLineContents d = [m]" by (simp add: defLineContents_plain)
    moreover from p have "takeWhile notLT m = m" by (simp add: takeWhile_eq_all_conv)
    ultimately show ?thesis unfolding f by (simp only:)
  next
    assume "\<exists>l m'. m = l @ 10 # m' \<and> (\<forall>c \<in> set l. notLT c) \<and> matchDefHead m' = None \<and> blockText m'"
    then obtain l m' where m': "m = l @ 10 # m'" and l: "\<forall>c \<in> set l. notLT c"
      and hn: "matchDefHead m' = None" and b: "blockText m'" by blast
    have dd: "d = (?h @ l) @ 10 # m'" by (simp add: d m')
    have "\<forall>c \<in> set (?h @ l). notLT c" using h l by auto
    moreover have "matchDefHead (?h @ l) = Some (n, l)" using matchDefHead_built [OF n, of l] by simp
    ultimately have "defLineContents (?h @ l) = [l]" by (simp add: defLineContents_plain)
    moreover have "defLineContents m' = []" using b hn by (rule defLineContents_blockText)
    moreover have "takeWhile notLT m = l" unfolding m' using l lt by (simp add: takeWhile_append2)
    ultimately show ?thesis
      using defLineContents_break [OF lt, of "?h @ l" m'] f unfolding dd by simp
  qed
qed

lemma defLineContents_blocks:
  "\<forall>d \<in> set (d # ds). definitionBlock d \<Longrightarrow>
   defLineContents (d @ blockLines ds) = map firstLineContent (d # ds)"
proof (induction ds arbitrary: d)
  case Nil
  then show ?case by (simp add: blockLines_def defLineContents_block)
next
  case (Cons d' ds)
  have "defLineContents (d' @ blockLines ds) = map firstLineContent (d' # ds)"
    using Cons.prems by (intro Cons.IH) simp_all
  moreover have "isLineTerminator 10" by (simp add: isLineTerminator_def)
  from defLineContents_break [OF this, of d "d' @ blockLines ds"]
  have "defLineContents (d @ blockLines (d' # ds)) = defLineContents d @ defLineContents (d' @ blockLines ds)"
    by (simp add: blockLines_def)
  ultimately show ?case using Cons.prems by (simp add: defLineContents_block)
qed

lemma defLineContents_after:
  assumes "matchDefHead b = None" and "noHeadAfterBreak b" and "\<forall>d \<in> set ds. definitionBlock d"
  shows "defLineContents (b @ blockLines ds) = map firstLineContent ds"
proof (cases ds)
  case Nil
  with assms show ?thesis by (simp add: blockLines_def defLineContents_none)
next
  case (Cons d ds')
  have "isLineTerminator 10" by (simp add: isLineTerminator_def)
  from defLineContents_break [OF this, of b "d @ blockLines ds'"]
  have "defLineContents (b @ blockLines ds) = defLineContents b @ defLineContents (d @ blockLines ds')"
    by (simp add: blockLines_def Cons)
  moreover have "defLineContents (d @ blockLines ds') = map firstLineContent (d # ds')"
    using assms(3) Cons by (intro defLineContents_blocks) simp_all
  ultimately show ?thesis using assms(1,2) Cons by (simp add: defLineContents_none)
qed

lemma newlines_facts:
  "replicate k 10 = [] \<or> isLineTerminator (hd (replicate k (10 :: nat)))"
  "noHeadAfterBreak (replicate k 10)"
  "91 \<notin> set (replicate k (10 :: nat))"
  "\<forall>c \<in> set (replicate k (10 :: nat)). isSpace c"
proof -
  show a: "replicate k 10 = [] \<or> isLineTerminator (hd (replicate k (10 :: nat)))" for k
    by (cases k) (simp_all add: isLineTerminator_def)
  show "noHeadAfterBreak (replicate k 10)"
    by (induction k) (simp_all add: matchDefHead_line_break [OF a])
  show "91 \<notin> set (replicate k (10 :: nat))" by simp
  show "\<forall>c \<in> set (replicate k (10 :: nat)). isSpace c" by (simp add: isSpace_def)
qed

lemma blockLines_first: "blockLines ds = [] \<or> isLineTerminator (hd (blockLines ds))"
  by (cases ds) (simp_all add: blockLines_def isLineTerminator_def)

lemma candidate_parts:
  assumes "plainSource (sourceOf es)" and "markersOnly es" and "\<forall>d \<in> set ds. definitionBlock d"
  shows "removeRefs (removeDefBlocks (withMarkers es @ replicate k 10 @ blockLines ds))
           = sourceOf es @ replicate k 10"
    and "defLineContents (withMarkers es @ replicate k 10 @ blockLines ds) = map firstLineContent ds"
proof -
  let ?w = "replicate k (10 :: nat)"
  let ?b = "withMarkers es @ ?w"
  from assms(1) have nm: "noMarker (sourceOf es)" and nc: "\<not> startsWithColon (sourceOf es)"
    and nb: "noColonAfterBreak (sourceOf es)" by (simp_all add: plainSource_def)
  have h: "matchDefHead ?b = None"
    using nm nc assms(2) newlines_facts(1) by (rule matchDefHead_None_withMarkers)
  have n: "noHeadAfterBreak ?b"
    using nm nb assms(2) newlines_facts(1,2) by (rule noHeadAfterBreak_withMarkers)
  have "removeDefBlocks (?b @ blockLines ds) = ?b @ removeDefBlocks (blockLines ds)"
    using noDefStart_noHead [OF n] blockLines_first by (rule removeDefBlocks_prefix)
  then have "removeDefBlocks (?b @ blockLines ds) = ?b"
    by (simp add: removeDefBlocks_blocks [OF assms(3)])
  moreover have "removeRefs ?b = sourceOf es @ ?w"
    using nm assms(2) newlines_facts(1,3) by (rule removeRefs_withMarkers)
  ultimately show "removeRefs (removeDefBlocks (withMarkers es @ ?w @ blockLines ds)) = sourceOf es @ ?w"
    by simp
  from defLineContents_after [OF h n assms(3)]
  show "defLineContents (withMarkers es @ ?w @ blockLines ds) = map firstLineContent ds" by simp
qed

lemma accepts_inserted:
  assumes "plainSource (sourceOf es)" and "markersOnly es" and "\<forall>d \<in> set ds. emojiBlock d"
  shows "validatorAccepts (sourceOf es) (withMarkers es @ replicate k 10 @ blockLines ds)"
proof -
  from assms(3) have b: "\<forall>d \<in> set ds. definitionBlock d" by (simp add: emojiBlock_def)
  note parts = candidate_parts [OF assms(1,2) b, of k]
  have "normalized (sourceOf es @ replicate k 10) = normalized (trim (sourceOf es))"
    using normalized_trailing_spaces [OF newlines_facts(4), of "sourceOf es" k]
    by (simp add: normalized_trim)
  moreover have "includesStr s s" for s :: jsstring
    unfolding includesStr_iff by (metis append_Nil append_Nil2)
  ultimately have "validatePreserveSource (sourceOf es) (withMarkers es @ replicate k 10 @ blockLines ds)"
    unfolding validatePreserveSource_normalized parts(1) by simp
  moreover have "validateFootnoteEmojis (withMarkers es @ replicate k 10 @ blockLines ds)"
    unfolding validateFootnoteEmojis_def parts(2) using assms(3)
    by (simp add: list_all_iff emojiBlock_def emojiContent_def)
  ultimately show ?thesis by (simp add: validatorAccepts_def)
qed

lemma rejects_bad_definition:
  assumes "definitionLine d" and "\<not> emojiContent (contentOf d)"
    and "pre = [] \<or> isLineTerminator (last pre)" and "post = [] \<or> isLineTerminator (hd post)"
  shows "\<not> validatorAccepts src (pre @ d @ post)"
proof -
  from defLineContents_member [OF assms(1,3,4)] assms(2)
  have "\<not> validateFootnoteEmojis (pre @ d @ post)"
    by (auto simp: validateFootnoteEmojis_def list_all_iff emojiContent_def)
  then show ?thesis by (simp add: validatorAccepts_def)
qed

subsection \<open>Stripping removes every inserted marker and every appended definition\<close>

lemma sourceOf_append [simp]: "sourceOf (es @ fs) = sourceOf es @ sourceOf fs"
  by (induction es rule: sourceOf.induct) simp_all

lemma withMarkers_append [simp]: "withMarkers (es @ fs) = withMarkers es @ withMarkers fs"
  by (induction es rule: withMarkers.induct) simp_all

lemma markersOnly_append [simp]: "markersOnly (es @ fs) = (markersOnly es \<and> markersOnly fs)"
  by (simp add: markersOnly_def)

lemma split_plain:
  assumes "withMarkers es @ t = p @ rest" and "91 \<notin> set p" and "10 \<notin> set p"
    and "t = [] \<or> hd t = 10"
  shows "\<exists>es1 es2. es = es1 @ es2 \<and> rest = withMarkers es2 @ t"
  using assms(1-3)
proof (induction p arbitrary: es)
  case Nil
  then have "es = [] @ es \<and> rest = withMarkers es @ t" by simp
  then show ?case by blast
next
  case (Cons x p)
  show ?case
  proof (cases es rule: withMarkers.cases)
    case 1
    with Cons.prems(1) have "t = x # p @ rest" by simp
    with assms(4) Cons.prems(3) show ?thesis by simp
  next
    case (2 c es')
    with Cons.prems have "withMarkers es' @ t = p @ rest" "91 \<notin> set p" "10 \<notin> set p" by simp_all
    from Cons.IH [OF this] obtain es1 es2 where "es' = es1 @ es2" "rest = withMarkers es2 @ t" by blast
    with 2 have "es = (Keep c # es1) @ es2 \<and> rest = withMarkers es2 @ t" by simp
    then show ?thesis by blast
  next
    case (3 ds es')
    with Cons.prems(1,2) show ?thesis by simp
  qed
qed

lemma head_rest:
  assumes "matchDefHead (withMarkers es @ t) = Some (ds, r)" and "markersOnly es"
    and "t = [] \<or> hd t = 10"
  shows "\<exists>es1 es2. es = es1 @ es2 \<and> r = withMarkers es2 @ t"
proof -
  from matchDefHead_Some [OF assms(1)]
  have s: "withMarkers es @ t = 91 # 94 # ds @ 93 # 58 # r" and ds: "\<forall>d \<in> set ds. isDigit d" by simp_all
  from ds have p: "91 \<notin> set (94 # ds @ [93, 58])" "10 \<notin> set (94 # ds @ [93, 58])"
    by (auto simp: isDigit_def)
  show ?thesis
  proof (cases es rule: withMarkers.cases)
    case 1
    with s assms(3) show ?thesis by auto
  next
    case (2 c es')
    with s have "withMarkers es' @ t = (94 # ds @ [93, 58]) @ r" by simp
    from split_plain [OF this p assms(3)] obtain es1 es2 where "es' = es1 @ es2" "r = withMarkers es2 @ t"
      by blast
    with 2 have "es = (Keep c # es1) @ es2 \<and> r = withMarkers es2 @ t" by simp
    then show ?thesis by blast
  next
    case (3 n es')
    with assms(2) have n: "digitsOnly n" by simp
    from matchMarker_built [OF n, of "withMarkers es' @ t"] 3
    have "matchMarker (withMarkers es @ t) = Some (n, withMarkers es' @ t)" by simp
    with assms(1) have "withMarkers es' @ t = [58] @ r"
      by (auto simp: matchDefHead_def split: list.splits if_splits)
    from split_plain [OF this _ _ assms(3)] obtain es1 es2 where "es' = es1 @ es2" "r = withMarkers es2 @ t"
      by auto
    with 3 have "es = (Insert n # es1) @ es2 \<and> r = withMarkers es2 @ t" by simp
    then show ?thesis by blast
  qed
qed

lemma first_break:
  assumes "markersOnly es"
  shows "(\<forall>c \<in> set (withMarkers es). notLT c)
     \<or> (\<exists>es1 c es2. es = es1 @ Keep c # es2 \<and> isLineTerminator c \<and> (\<forall>x \<in> set (withMarkers es1). notLT x))"
  using assms
proof (induction es rule: withMarkers.induct)
  case 1
  then show ?case by simp
next
  case (2 c es)
  show ?case
  proof (cases "isLineTerminator c")
    case True
    then have "Keep c # es = [] @ Keep c # es \<and> isLineTerminator c \<and> (\<forall>x \<in> set (withMarkers []). notLT x)"
      by simp
    then show ?thesis by blast
  next
    case False
    from 2 have "(\<forall>c \<in> set (withMarkers es). notLT c)
     \<or> (\<exists>es1 c es2. es = es1 @ Keep c # es2 \<and> isLineTerminator c \<and> (\<forall>x \<in> set (withMarkers es1). notLT x))"
      by simp
    then show ?thesis
    proof
      assume "\<forall>c \<in> set (withMarkers es). notLT c"
      with False show ?thesis by simp
    next
      assume "\<exists>es1 c es2. es = es1 @ Keep c # es2 \<and> isLineTerminator c \<and> (\<forall>x \<in> set (withMarkers es1). notLT x)"
      then obtain es1 c' es2 where "es = es1 @ Keep c' # es2" "isLineTerminator c'"
        "\<forall>x \<in> set (withMarkers es1). notLT x" by blast
      with False have "Keep c # es = (Keep c # es1) @ Keep c' # es2 \<and> isLineTerminator c'
        \<and> (\<forall>x \<in> set (withMarkers (Keep c # es1)). notLT x)" by simp
      then show ?thesis by blast
    qed
  qed
next
  case (3 ds es)
  then have ds: "digitsOnly ds" and m: "markersOnly es" by simp_all
  from ds have plain: "\<forall>x \<in> set (91 # 94 # ds @ [93]). notLT x"
    by (auto simp: digitsOnly_def isDigit_def isLineTerminator_def)
  from 3(1) [OF m] show ?case
  proof
    assume "\<forall>c \<in> set (withMarkers es). notLT c"
    with plain show ?thesis by auto
  next
    assume "\<exists>es1 c es2. es = es1 @ Keep c # es2 \<and> isLineTerminator c \<and> (\<forall>x \<in> set (withMarkers es1). notLT x)"
    then obtain es1 c' es2 where "es = es1 @ Keep c' # es2" "isLineTerminator c'"
      "\<forall>x \<in> set (withMarkers es1). notLT x" by blast
    with plain have "Insert ds # es = (Insert ds # es1) @ Keep c' # es2 \<and> isLineTerminator c'
        \<and> (\<forall>x \<in> set (withMarkers (Insert ds # es1)). notLT x)" by auto
    then show ?thesis by blast
  qed
qed

lemma blockText_newlines: "\<forall>c \<in> set l. notLT c \<Longrightarrow> blockText (l @ replicate k 10)"
proof (induction k arbitrary: l)
  case 0
  then show ?case by (simp add: blockText_plain)
next
  case (Suc k)
  have "blockText ([] @ replicate k 10)" by (rule Suc.IH) simp
  then have "blockText (replicate k 10)" by simp
  with Suc.prems matchDefHead_line_break [OF newlines_facts(1), of k]
  have "blockText (l @ 10 # replicate k 10)" by (intro blockText_line)
  then show ?case by simp
qed

lemma lines_rest:
  assumes "\<forall>d \<in> set defs. definitionBlock d"
  shows "markersOnly es \<Longrightarrow> defBlockLines (withMarkers es @ replicate k 10 @ blockLines defs) = (m, rest) \<Longrightarrow>
     (\<exists>es1 es2. es = es1 @ es2 \<and> rest = withMarkers es2 @ replicate k 10 @ blockLines defs)
     \<or> rest = blockLines defs"
proof (induction "length es" arbitrary: es m rule: less_induct)
  case less
  let ?T = "replicate k 10 @ blockLines defs"
  from first_break [OF less.prems(1)]
  show ?case
  proof
    assume "\<forall>c \<in> set (withMarkers es). notLT c"
    then have "blockText (withMarkers es @ replicate k 10)" by (rule blockText_newlines)
    from defBlockLines_blockText_append [OF this blockLines_blocks_stops [OF assms]] less.prems(2)
    show ?thesis by simp
  next
    assume "\<exists>es1 c es2. es = es1 @ Keep c # es2 \<and> isLineTerminator c \<and> (\<forall>x \<in> set (withMarkers es1). notLT x)"
    then obtain es1 c es2 where es: "es = es1 @ Keep c # es2" and c: "isLineTerminator c"
      and plain: "\<forall>x \<in> set (withMarkers es1). notLT x" by blast
    let ?s = "withMarkers es @ ?T"
    let ?r = "withMarkers es2 @ ?T"
    have s: "?s = withMarkers es1 @ c # ?r" by (simp add: es)
    from plain c have tw: "takeWhile notLT ?s = withMarkers es1" and dw: "dropWhile notLT ?s = c # ?r"
      unfolding s by (simp_all add: takeWhile_append2 dropWhile_append2)
    show ?thesis
    proof (cases "c = 10 \<and> matchDefHead ?r = None")
      case True
      with dw have "dropWhile notLT ?s = 10 # ?r" by simp
      from defBlockLines_cont [OF this] True less.prems(2)
      have rest: "rest = snd (defBlockLines ?r)" by simp
      have "length es2 < length es" by (simp add: es)
      moreover from less.prems(1) have "markersOnly es2" by (simp add: es)
      moreover have "defBlockLines ?r = (fst (defBlockLines ?r), rest)" by (simp add: rest)
      ultimately have "(\<exists>e1 e2. es2 = e1 @ e2 \<and> rest = withMarkers e2 @ ?T) \<or> rest = blockLines defs"
        by (rule less.hyps)
      then show ?thesis
      proof
        assume "\<exists>e1 e2. es2 = e1 @ e2 \<and> rest = withMarkers e2 @ ?T"
        then obtain e1 e2 where "es2 = e1 @ e2" "rest = withMarkers e2 @ ?T" by blast
        with es have "es = (es1 @ Keep c # e1) @ e2 \<and> rest = withMarkers e2 @ ?T" by simp
        then show ?thesis by blast
      qed simp
    next
      case False
      from defBlockLines_stop [OF dw False] less.prems(2) have "rest = c # ?r" by simp
      with es have "es = es1 @ (Keep c # es2) \<and> rest = withMarkers (Keep c # es2) @ ?T" by simp
      then show ?thesis by blast
    qed
  qed
qed

lemma removeDefBlocks_no_lf: "10 \<notin> set p \<Longrightarrow> removeDefBlocks (p @ s) = p @ removeDefBlocks s"
proof (induction p)
  case Nil
  then show ?case by simp
next
  case (Cons c p)
  then have "matchDefBlock (c # p @ s) = None" by (simp add: matchDefBlock_None_iff)
  with Cons show ?case by simp
qed

lemma tail_removed:
  assumes "\<forall>d \<in> set defs. definitionBlock d"
  shows "removeDefBlocks (replicate k 10 @ blockLines defs) = replicate k 10"
  using removeDefBlocks_prefix [OF noDefStart_noHead [OF newlines_facts(2)] blockLines_first, of k defs]
  by (simp add: removeDefBlocks_blocks [OF assms])

lemma blocks_removed:
  assumes "\<forall>d \<in> set defs. definitionBlock d"
  shows "markersOnly es \<Longrightarrow>
     \<exists>es' j. removeDefBlocks (withMarkers es @ replicate k 10 @ blockLines defs) = withMarkers es' @ replicate j 10
       \<and> markersOnly es' \<and> inkCount (sourceOf es') \<le> inkCount (sourceOf es)"
proof (induction "length es" arbitrary: es k rule: less_induct)
  case less
  let ?T = "replicate k 10 @ blockLines defs"
  show ?case
  proof (cases es rule: withMarkers.cases)
    case 1
    with tail_removed [OF assms, of k]
    have "removeDefBlocks (withMarkers es @ ?T) = withMarkers [] @ replicate k 10
       \<and> markersOnly [] \<and> inkCount (sourceOf []) \<le> inkCount (sourceOf es)" by simp
    then show ?thesis by blast
  next
    case (2 c es1)
    with less.prems have m1: "markersOnly es1" by simp
    show ?thesis
    proof (cases "matchDefBlock (c # withMarkers es1 @ ?T)")
      case None
      from 2 have "length es1 < length es" by simp
      from less.hyps [OF this m1, of k] obtain es' j where
        r: "removeDefBlocks (withMarkers es1 @ ?T) = withMarkers es' @ replicate j 10"
        and m: "markersOnly es'" and i: "inkCount (sourceOf es') \<le> inkCount (sourceOf es1)" by blast
      from None r 2 m i have "removeDefBlocks (withMarkers es @ ?T) = withMarkers (Keep c # es') @ replicate j 10
        \<and> markersOnly (Keep c # es') \<and> inkCount (sourceOf (Keep c # es')) \<le> inkCount (sourceOf es)"
        by simp
      then show ?thesis by blast
    next
      case (Some a)
      obtain block rest where a: "a = (block, rest)" by (cases a)
      from Some a obtain ds t m where h: "matchDefHead (withMarkers es1 @ ?T) = Some (ds, t)"
        and l: "defBlockLines t = (m, rest)"
        by (auto simp: matchDefBlock_def split: if_splits option.splits prod.splits)
      have T: "?T = [] \<or> hd ?T = 10"
        by (cases k; cases defs) (simp_all add: blockLines_def)
      from head_rest [OF h m1 T] obtain e1 e2 where e: "es1 = e1 @ e2" and t: "t = withMarkers e2 @ ?T"
        by blast
      from m1 e have m2: "markersOnly e2" by simp
      from Some a 2 have rm: "removeDefBlocks (withMarkers es @ ?T) = removeDefBlocks rest" by simp
      from lines_rest [OF assms m2 l [unfolded t]]
      show ?thesis
      proof
        assume "\<exists>e3 e4. e2 = e3 @ e4 \<and> rest = withMarkers e4 @ ?T"
        then obtain e3 e4 where e': "e2 = e3 @ e4" and rest: "rest = withMarkers e4 @ ?T" by blast
        from 2 e e' have "length e4 < length es" by simp
        moreover from m2 e' have "markersOnly e4" by simp
        ultimately obtain es' j where
          r: "removeDefBlocks (withMarkers e4 @ ?T) = withMarkers es' @ replicate j 10"
          and m: "markersOnly es'" and i: "inkCount (sourceOf es') \<le> inkCount (sourceOf e4)"
          using less.hyps [of e4 k] by blast
        have "inkCount (sourceOf e4) \<le> inkCount (sourceOf es)" by (simp add: 2 e e')
        with rm rest r m i have "removeDefBlocks (withMarkers es @ ?T) = withMarkers es' @ replicate j 10
          \<and> markersOnly es' \<and> inkCount (sourceOf es') \<le> inkCount (sourceOf es)" by simp
        then show ?thesis by blast
      next
        assume "rest = blockLines defs"
        with rm removeDefBlocks_blocks [OF assms]
        have "removeDefBlocks (withMarkers es @ ?T) = withMarkers [] @ replicate 0 10
          \<and> markersOnly [] \<and> inkCount (sourceOf []) \<le> inkCount (sourceOf es)" by simp
        then show ?thesis by blast
      qed
    qed
  next
    case (3 ds es1)
    with less.prems have ds: "digitsOnly ds" and m1: "markersOnly es1" by simp_all
    from 3 have "length es1 < length es" by simp
    from less.hyps [OF this m1, of k] obtain es' j where
      r: "removeDefBlocks (withMarkers es1 @ ?T) = withMarkers es' @ replicate j 10"
      and m: "markersOnly es'" and i: "inkCount (sourceOf es') \<le> inkCount (sourceOf es1)" by blast
    from ds have "10 \<notin> set (91 # 94 # ds @ [93])" by (auto simp: digitsOnly_def isDigit_def)
    from removeDefBlocks_no_lf [OF this, of "withMarkers es1 @ ?T"] r
    have "removeDefBlocks (withMarkers es @ ?T) = withMarkers (Insert ds # es') @ replicate j 10"
      by (simp add: 3)
    with ds m i 3 have "removeDefBlocks (withMarkers es @ ?T) = withMarkers (Insert ds # es') @ replicate j 10
      \<and> markersOnly (Insert ds # es') \<and> inkCount (sourceOf (Insert ds # es')) \<le> inkCount (sourceOf es)"
      by simp
    then show ?thesis by blast
  qed
qed

lemma refs_removed:
  "markersOnly es \<Longrightarrow> inkCount (removeRefs (withMarkers es @ replicate j 10)) \<le> inkCount (sourceOf es)"
proof (induction "length es" arbitrary: es rule: less_induct)
  case less
  let ?w = "replicate j (10 :: nat)"
  have w: "?w = [] \<or> hd ?w = 10" by (cases j) simp_all
  show ?case
  proof (cases es rule: withMarkers.cases)
    case 1
    then show ?thesis
      by (simp add: removeRefs_plain [OF newlines_facts(3)] inkCount_spaces [OF newlines_facts(4)])
  next
    case (2 c es1)
    with less.prems have m1: "markersOnly es1" by simp
    show ?thesis
    proof (cases "matchMarker (c # withMarkers es1 @ ?w)")
      case None
      from 2 have "length es1 < length es" by simp
      from less.hyps [OF this m1] None 2 show ?thesis by simp
    next
      case (Some a)
      obtain ds rest where a: "a = (ds, rest)" by (cases a)
      from matchMarker_Some [of "c # withMarkers es1 @ ?w" ds rest] Some a
      have s: "withMarkers es1 @ ?w = (94 # ds @ [93]) @ rest" and ds: "\<forall>d \<in> set ds. isDigit d"
        by simp_all
      from ds have "91 \<notin> set (94 # ds @ [93])" "10 \<notin> set (94 # ds @ [93])" by (auto simp: isDigit_def)
      from split_plain [OF s this w] obtain e1 e2 where e: "es1 = e1 @ e2"
        and rest: "rest = withMarkers e2 @ ?w" by blast
      from 2 e have "length e2 < length es" by simp
      moreover from m1 e have "markersOnly e2" by simp
      ultimately have "inkCount (removeRefs (withMarkers e2 @ ?w)) \<le> inkCount (sourceOf e2)"
        by (rule less.hyps)
      moreover have "inkCount (sourceOf e2) \<le> inkCount (sourceOf es)" by (simp add: 2 e)
      ultimately show ?thesis using Some a rest 2 by simp
    qed
  next
    case (3 ds es1)
    with less.prems have ds: "digitsOnly ds" and m1: "markersOnly es1" by simp_all
    from 3 have "length es1 < length es" by simp
    from less.hyps [OF this m1] matchMarker_built [OF ds, of "withMarkers es1 @ ?w"] 3
    show ?thesis by simp
  qed
qed

lemma rejects_deleted_word:
  assumes "markersOnly es" and "\<forall>d \<in> set ds. definitionBlock d"
    and "sourceOf es = a @ b" and "\<exists>c \<in> set w. \<not> isSpace c"
  shows "\<not> validatorAccepts (a @ w @ b) (withMarkers es @ replicate k 10 @ blockLines ds)"
proof -
  let ?cand = "withMarkers es @ replicate k 10 @ blockLines ds"
  let ?src = "normalized (trim (a @ w @ b))"
  let ?body = "normalized (removeRefs (removeDefBlocks ?cand))"
  from blocks_removed [OF assms(2,1), of k] obtain es' j where
    r: "removeDefBlocks ?cand = withMarkers es' @ replicate j 10"
    and m: "markersOnly es'" and i: "inkCount (sourceOf es') \<le> inkCount (sourceOf es)" by blast
  from assms(4) have w: "0 < inkCount w" by (induction w) auto
  have "inkCount ?body \<le> inkCount (sourceOf es')"
    unfolding r inkCount_normalized by (rule refs_removed [OF m])
  also note i
  also have "inkCount (sourceOf es) = inkCount a + inkCount b" by (simp add: assms(3))
  finally have "inkCount ?body \<le> inkCount a + inkCount b" .
  moreover have "inkCount ?src = inkCount a + inkCount w + inkCount b"
    by (simp add: inkCount_normalized inkCount_trim)
  ultimately have less: "inkCount ?body < inkCount ?src" using w by simp
  then have "?src \<noteq> []" by auto
  moreover from less have "\<not> includesStr ?body ?src" by (auto dest: includesStr_inkCount)
  ultimately have "\<not> validatePreserveSource (a @ w @ b) ?cand"
    unfolding validatePreserveSource_normalized by simp
  then show ?thesis by (simp add: validatorAccepts_def)
qed

subsection \<open>The two verdicts\<close>

lemmas candidate_eval = plainSource_def startsWithColon_def definitionBlock_def definitionLine_def
  emojiBlock_def emojiContent_def firstLineContent_def contentOf_def blockLines_def ALLOWED_EMOJIS_def

text \<open>
  C2 (as stated, refuted). The original \<open>see [^9] now\<close> holds a marker of its own. The
  candidate inserts the marker \<open>[^1]\<close> after \<open>see\<close> and appends a definition that begins
  with an allowed emoji; \<open>validatePreserveSource\<close> strips every marker from the candidate
  but none from the original, so the original is not found and the candidate is rejected.
  The original with the two lines \<open>a\<close> and \<open>: b\<close> has a line that starts with a colon; the
  marker \<open>[^1]\<close> inserted before that colon turns the line into a definition without an
  emoji, and the candidate is rejected as well.
\<close>

theorem C2_inserted_markers_rejected:
  "\<not> validatorAccepts (js ''see [^9] now'')
        (js ''see[^1] [^9] now\<newline>\<newline>[^1]: '' @ [55357, 56538] @ js '' x'')
   \<and> \<not> validatorAccepts (js ''a\<newline>: b'')
        (js ''a\<newline>[^1]: b\<newline>\<newline>[^1]: '' @ [55357, 56538] @ js '' x'')"
proof -
  have s: "normalized (trim (js ''see [^9] now'')) = js ''see [^9] now''"
    by (simp add: normalized_def validator_eval)
  have b: "normalized (removeRefs (removeDefBlocks
       (js ''see[^1] [^9] now\<newline>\<newline>[^1]: '' @ [55357, 56538] @ js '' x''))) = js ''see now''"
    by (simp add: normalized_def validator_eval)
  have "\<not> includesStr (js ''see now'') (js ''see [^9] now'')" by (simp add: js_def)
  then have 1: "\<not> validatePreserveSource (js ''see [^9] now'')
        (js ''see[^1] [^9] now\<newline>\<newline>[^1]: '' @ [55357, 56538] @ js '' x'')"
    unfolding validatePreserveSource_normalized s b by (simp add: js_def)
  have "defLineContents (js ''a\<newline>[^1]: b\<newline>\<newline>[^1]: '' @ [55357, 56538] @ js '' x'')
      = [js '' b'', js '' '' @ [55357, 56538] @ js '' x'']"
    by (simp add: defLineContents_def validator_eval)
  then have 2: "\<not> validateFootnoteEmojis (js ''a\<newline>[^1]: b\<newline>\<newline>[^1]: '' @ [55357, 56538] @ js '' x'')"
    unfolding validateFootnoteEmojis_def by (simp add: validator_eval ALLOWED_EMOJIS_def)
  from 1 2 show ?thesis by (simp add: validatorAccepts_def)
qed

text \<open>
  C2 (amended). A candidate is formed from a text by inserting markers \<open>[^n]\<close> (\<open>n\<close> a
  non-empty run of digits) at any places, then appending any number of line feeds and any
  number of definitions, each after a line feed; a definition is a head \<open>[^n]:\<close> with the
  rest of its line and any continuation lines, entered through line feeds, that do not
  start with a definition head.

  \<^item> If the original has no marker syntax of its own and no line that starts with a colon,
    the Validator accepts every candidate formed from the original in which the first
    line of each appended definition begins, after white space, with an allowed emoji.
  \<^item> For every original, the Validator rejects every candidate formed from the original
    with a stretch of text deleted that holds a character other than white space.
  \<^item> For every original, the Validator rejects every candidate with a line \<open>[^n]:content\<close>,
    from the start of the text or a line terminator to the end of the text or a line
    terminator, whose content is empty or white space or does not begin, after white
    space, with an allowed emoji.
\<close>

theorem C2_accepts_and_rejects:
  "(plainSource (sourceOf es) \<and> markersOnly es \<and> list_all emojiBlock defs
      \<longrightarrow> validatorAccepts (sourceOf es) (withMarkers es @ replicate k 10 @ blockLines defs))
   \<and> (markersOnly es \<and> list_all definitionBlock defs
        \<and> sourceOf es = a @ b \<and> list_ex (\<lambda>c. \<not> isSpace c) w
      \<longrightarrow> \<not> validatorAccepts (a @ w @ b) (withMarkers es @ replicate k 10 @ blockLines defs))
   \<and> (definitionLine d \<and> \<not> emojiContent (contentOf d)
        \<and> (pre = [] \<or> isLineTerminator (last pre)) \<and> (post = [] \<or> isLineTerminator (hd post))
      \<longrightarrow> \<not> validatorAccepts src (pre @ d @ post))"
proof (intro conjI impI; elim conjE)
  assume "plainSource (sourceOf es)" and "markersOnly es" and "list_all emojiBlock defs"
  then show "validatorAccepts (sourceOf es) (withMarkers es @ replicate k 10 @ blockLines defs)"
    by (intro accepts_inserted) (simp_all add: list_all_iff)
next
  assume "markersOnly es" and "list_all definitionBlock defs"
    and "sourceOf es = a @ b" and "list_ex (\<lambda>c. \<not> isSpace c) w"
  then show "\<not> validatorAccepts (a @ w @ b) (withMarkers es @ replicate k 10 @ blockLines defs)"
    by (intro rejects_deleted_word) (simp_all add: list_all_iff list_ex_iff)
next
  assume "definitionLine d" and "\<not> emojiContent (contentOf d)"
    and "pre = [] \<or> isLineTerminator (last pre)" and "post = [] \<or> isLineTerminator (hd post)"
  then show "\<not> validatorAccepts src (pre @ d @ post)" by (rule rejects_bad_definition)
qed

theorem C2_accepts_and_rejects_witness:
  "validatorAccepts (js ''sun.'')
     (js ''sun[^1].\<newline>\<newline>[^1]: '' @ [55357, 56538] @ js '' star\<newline> of day\<newline>\<newline>[^2]:'' @ [9203] @ js ''dusk'')
   \<and> \<not> validatorAccepts (js ''sun set.'')
     (js ''sun[^1].\<newline>\<newline>[^1]: '' @ [55357, 56538] @ js '' star\<newline> of day\<newline>\<newline>[^2]:'' @ [9203] @ js ''dusk'')
   \<and> \<not> validatorAccepts (js ''sun set.'') (js ''sun[^1] set.\<newline>\<newline>[^1]: star'')"
proof -
  let ?es = "map Keep (js ''sun'') @ [Insert (js ''1'')] @ map Keep (js ''.'')"
  let ?d1 = "js ''[^1]: '' @ [55357, 56538] @ js '' star\<newline> of day\<newline>''"
  let ?d2 = "js ''[^2]:'' @ [9203] @ js ''dusk''"
  have p: "plainSource (sourceOf ?es)" "markersOnly ?es"
    by (simp_all add: candidate_eval validator_eval digitsOnly_def)
  have d: "list_all emojiBlock [?d1, ?d2]" "list_all definitionBlock [?d1, ?d2]"
    by (simp_all add: candidate_eval validator_eval blockText_def del: dropWhile_eq_Nil_conv)
  have l: "definitionLine (js ''[^1]: star'')" "\<not> emojiContent (contentOf (js ''[^1]: star''))"
    by (simp_all add: candidate_eval validator_eval)
  have w: "list_ex (\<lambda>c. \<not> isSpace c) (js '' set'')" by (simp add: js_def isSpace_def)
  have t: "isLineTerminator (last (js ''sun[^1] set.\<newline>\<newline>''))" by (simp add: js_def isLineTerminator_def)
  from p d l w t show ?thesis
    using C2_accepts_and_rejects [of ?es "[?d1, ?d2]" 1 "js ''sun''" "js ''.''" "js '' set''"
        "js ''[^1]: star''" "js ''sun[^1] set.\<newline>\<newline>''" "[]" "js ''sun set.''"]
    by (simp add: js_def blockLines_def)
qed

end
